theory Spec2Isabelle
  imports Main "HOL-Library.AList"
begin

section \<open>JavaScript strings and values\<close>

text \<open>
  A JavaScript string is a sequence of 16-bit UTF-16 code units. A code unit is modelled
  as a natural number; \<open>String.fromCharCode\<close> truncates its argument to 16 bits, which is
  written out. String literals of the source are written \<open>js ''...''\<close>.
\<close>

type_synonym jsstring = "nat list"

definition js :: "string \<Rightarrow> jsstring" where
  "js s = map of_char s"

definition fromCharCode :: "nat \<Rightarrow> jsstring" where
  "fromCharCode n = [n mod 65536]"

text \<open>
  The values the library stores and returns: a string, \<open>null\<close> (a key without \<open>=\<close>) or
  \<open>undefined\<close> (what \<open>value\<close> returns for a key that is not there).
\<close>

datatype jsvalue = Undefined | Null | Str jsstring

datatype js_error = URIError | TypeError

text \<open>\<open>ToString\<close> of ECMA-262, applied by \<open>encodeURIComponent\<close> to its argument.\<close>

fun ToString :: "jsvalue \<Rightarrow> jsstring" where
  "ToString Undefined = js ''undefined''"
| "ToString Null = js ''null''"
| "ToString (Str s) = s"

section \<open>Regular expressions of the source\<close>

text \<open>
  \<open>s.replace(re, f)\<close> for a global regular expression \<open>re\<close> all of whose matches have
  the same length \<open>n\<close>: the string is scanned from the left; at each position the next
  \<open>n\<close> code units are tried against the pattern \<open>m\<close>; a match is replaced by what the
  callback \<open>f\<close> returns for it and the scan goes on behind the match; otherwise the code
  unit is kept and the scan moves one position on. Replacement text is never rescanned.
\<close>

fun gsub :: "nat \<Rightarrow> (jsstring \<Rightarrow> bool) \<Rightarrow> (jsstring \<Rightarrow> jsstring) \<Rightarrow> jsstring \<Rightarrow> jsstring" where
  "gsub n m f [] = []"
| "gsub n m f (x # xs) =
     (if m (take n (x # xs)) then f (take n (x # xs)) @ gsub n m f (drop (n - 1) xs)
      else x # gsub n m f xs)"

declare gsub.simps(2) [simp del]

text \<open>The character classes \<open>[0-9A-F]\<close>, \<open>[EF]\<close>, \<open>[CD]\<close>, \<open>[89AB]\<close> and \<open>[0-7]\<close>.\<close>

definition cls_HEX :: "nat \<Rightarrow> bool" where
  "cls_HEX c = ((48 \<le> c \<and> c \<le> 57) \<or> (65 \<le> c \<and> c \<le> 70))"

definition cls_EF :: "nat \<Rightarrow> bool" where
  "cls_EF c = (c = 69 \<or> c = 70)"

definition cls_CD :: "nat \<Rightarrow> bool" where
  "cls_CD c = (c = 67 \<or> c = 68)"

definition cls_89AB :: "nat \<Rightarrow> bool" where
  "cls_89AB c = (c = 56 \<or> c = 57 \<or> c = 65 \<or> c = 66)"

definition cls_07 :: "nat \<Rightarrow> bool" where
  "cls_07 c = (48 \<le> c \<and> c \<le> 55)"

text \<open>\<open>/\+/\<close>\<close>

definition re_plus :: "jsstring \<Rightarrow> bool" where
  "re_plus t = (t = [43])"

text \<open>\<open>/%([EF][0-9A-F])%([89AB][0-9A-F])%([89AB][0-9A-F])/\<close>\<close>

fun re_esc3 :: "jsstring \<Rightarrow> bool" where
  "re_esc3 [p1, a1, b1, p2, a2, b2, p3, a3, b3] =
     (p1 = 37 \<and> cls_EF a1 \<and> cls_HEX b1 \<and> p2 = 37 \<and> cls_89AB a2 \<and> cls_HEX b2 \<and>
      p3 = 37 \<and> cls_89AB a3 \<and> cls_HEX b3)"
| "re_esc3 _ = False"

text \<open>\<open>/%([CD][0-9A-F])%([89AB][0-9A-F])/\<close>\<close>

fun re_esc2 :: "jsstring \<Rightarrow> bool" where
  "re_esc2 [p1, a1, b1, p2, a2, b2] =
     (p1 = 37 \<and> cls_CD a1 \<and> cls_HEX b1 \<and> p2 = 37 \<and> cls_89AB a2 \<and> cls_HEX b2)"
| "re_esc2 _ = False"

text \<open>\<open>/%([0-7][0-9A-F])/\<close>\<close>

fun re_esc1 :: "jsstring \<Rightarrow> bool" where
  "re_esc1 [p1, a1, b1] = (p1 = 37 \<and> cls_07 a1 \<and> cls_HEX b1)"
| "re_esc1 _ = False"

text \<open>\<open>/%20/\<close>\<close>

definition re_pct20 :: "jsstring \<Rightarrow> bool" where
  "re_pct20 t = (t = [37, 50, 48])"

text \<open>
  \<open>parseInt(hex, 16)\<close> on the two upper-case hexadecimal digits a pattern has captured.
\<close>

definition hexval :: "nat \<Rightarrow> nat" where
  "hexval c = (if c \<le> 57 then c - 48 else c - 55)"

definition parseInt16 :: "nat \<Rightarrow> nat \<Rightarrow> nat" where
  "parseInt16 a b = 16 * hexval a + hexval b"

section \<open>QueryString.decode\<close>

text \<open>The callback of the three-escape pass; \<open>code\<close> is the whole match.\<close>

fun decode3 :: "jsstring \<Rightarrow> jsstring" where
  "decode3 [p1, a1, b1, p2, a2, b2, p3, a3, b3] =
     (let code = [p1, a1, b1, p2, a2, b2, p3, a3, b3];
          n1 = parseInt16 a1 b1 - 0xE0;
          n2 = parseInt16 a2 b2 - 0x80
      in if n1 = 0 \<and> n2 < 32 then code
         else let n3 = parseInt16 a3 b3 - 0x80;
                  n = push_bit 12 n1 + push_bit 6 n2 + n3
              in if n > 0xFFFF then code else fromCharCode n)"
| "decode3 code = code"

text \<open>The callback of the two-escape pass.\<close>

fun decode2 :: "jsstring \<Rightarrow> jsstring" where
  "decode2 [p1, a1, b1, p2, a2, b2] =
     (let code = [p1, a1, b1, p2, a2, b2];
          n1 = parseInt16 a1 b1 - 0xC0
      in if n1 < 2 then code
         else let n2 = parseInt16 a2 b2 - 0x80
              in fromCharCode (push_bit 6 n1 + n2))"
| "decode2 code = code"

text \<open>The callback of the one-escape pass.\<close>

fun decode1 :: "jsstring \<Rightarrow> jsstring" where
  "decode1 [p1, a1, b1] = fromCharCode (parseInt16 a1 b1)"
| "decode1 code = code"

definition decode :: "jsstring \<Rightarrow> jsstring" where
  "decode s0 =
     (let s1 = gsub 1 re_plus (\<lambda>_. [32]) s0;
          s2 = gsub 9 re_esc3 decode3 s1;
          s3 = gsub 6 re_esc2 decode2 s2;
          s4 = gsub 3 re_esc1 decode1 s3
      in s4)"

section \<open>The host's URI functions\<close>

text \<open>
  \<open>encodeURIComponent\<close> and \<open>decodeURIComponent\<close> are built-in functions of the
  JavaScript host, not code of the library. They are modelled after the abstract
  operations \<open>Encode\<close> and \<open>Decode\<close> of ECMA-262 (section "URI Handling Functions").
\<close>

text \<open>The unreserved set of \<open>encodeURIComponent\<close>: letters, digits and \<open>- _ . ! ~ * ' ( )\<close>.\<close>

definition uriUnreserved :: "nat \<Rightarrow> bool" where
  "uriUnreserved c =
     ((65 \<le> c \<and> c \<le> 90) \<or> (97 \<le> c \<and> c \<le> 122) \<or> (48 \<le> c \<and> c \<le> 57) \<or>
      c = 45 \<or> c = 95 \<or> c = 46 \<or> c = 33 \<or> c = 126 \<or> c = 42 \<or> c = 39 \<or> c = 40 \<or> c = 41)"

definition hexdigit :: "nat \<Rightarrow> nat" where
  "hexdigit n = (if n < 10 then 48 + n else 55 + n)"

text \<open>One octet as \<open>%XX\<close>, with upper-case hexadecimal digits.\<close>

definition pct :: "nat \<Rightarrow> jsstring" where
  "pct b = [37, hexdigit (b div 16), hexdigit (b mod 16)]"

definition utf8 :: "nat \<Rightarrow> nat list" where
  "utf8 cp =
     (if cp < 0x80 then [cp]
      else if cp < 0x800 then [0xC0 + cp div 64, 0x80 + cp mod 64]
      else if cp < 0x10000 then [0xE0 + cp div 4096, 0x80 + cp div 64 mod 64, 0x80 + cp mod 64]
      else [0xF0 + cp div 262144, 0x80 + cp div 4096 mod 64, 0x80 + cp div 64 mod 64,
            0x80 + cp mod 64])"

definition pct_utf8 :: "nat \<Rightarrow> jsstring" where
  "pct_utf8 cp = concat (map pct (utf8 cp))"

definition is_lead_surrogate :: "nat \<Rightarrow> bool" where
  "is_lead_surrogate c = (0xD800 \<le> c \<and> c \<le> 0xDBFF)"

definition is_trail_surrogate :: "nat \<Rightarrow> bool" where
  "is_trail_surrogate c = (0xDC00 \<le> c \<and> c \<le> 0xDFFF)"

definition prepend :: "jsstring \<Rightarrow> js_error + jsstring \<Rightarrow> js_error + jsstring" where
  "prepend x r = (case r of Inl e \<Rightarrow> Inl e | Inr t \<Rightarrow> Inr (x @ t))"

text \<open>
  \<open>Encode\<close>: an unreserved code unit is copied; otherwise the code point at the position
  is read (a surrogate pair is one code point, an unpaired surrogate raises URIError) and
  each octet of its UTF-8 encoding is written as \<open>%XX\<close>.
\<close>

fun encodeURIComponent :: "jsstring \<Rightarrow> js_error + jsstring" where
  "encodeURIComponent [] = Inr []"
| "encodeURIComponent (c # s) =
     (if uriUnreserved c then prepend [c] (encodeURIComponent s)
      else if \<not> is_lead_surrogate c \<and> \<not> is_trail_surrogate c
      then prepend (pct_utf8 c) (encodeURIComponent s)
      else if is_trail_surrogate c then Inl URIError
      else (case s of
              [] \<Rightarrow> Inl URIError
            | d # s' \<Rightarrow>
                if is_trail_surrogate d
                then prepend (pct_utf8 ((c - 0xD800) * 0x400 + (d - 0xDC00) + 0x10000))
                       (encodeURIComponent s')
                else Inl URIError))"

text \<open>\<open>ParseHexOctet\<close>: two hexadecimal digits of either case.\<close>

definition is_hexdigit :: "nat \<Rightarrow> bool" where
  "is_hexdigit c = ((48 \<le> c \<and> c \<le> 57) \<or> (65 \<le> c \<and> c \<le> 70) \<or> (97 \<le> c \<and> c \<le> 102))"

definition hexdigit_val :: "nat \<Rightarrow> nat" where
  "hexdigit_val c = (if c \<le> 57 then c - 48 else if c \<le> 70 then c - 55 else c - 87)"

definition ParseHexOctet :: "nat \<Rightarrow> nat \<Rightarrow> nat option" where
  "ParseHexOctet a b =
     (if is_hexdigit a \<and> is_hexdigit b then Some (16 * hexdigit_val a + hexdigit_val b)
      else None)"

text \<open>The next \<open>j\<close> escapes \<open>%XX\<close> of the string, and what follows them.\<close>

fun read_escapes :: "nat \<Rightarrow> jsstring \<Rightarrow> (nat list \<times> jsstring) option" where
  "read_escapes 0 s = Some ([], s)"
| "read_escapes (Suc j) (p # a # b # s) =
     (if p = 37 then
        (case ParseHexOctet a b of
           None \<Rightarrow> None
         | Some B \<Rightarrow>
             (case read_escapes j s of None \<Rightarrow> None | Some (bs, r) \<Rightarrow> Some (B # bs, r)))
      else None)"
| "read_escapes (Suc j) s = None"

text \<open>The number of leading 1 bits of an octet (5 stands for five or more).\<close>

definition leading_ones :: "nat \<Rightarrow> nat" where
  "leading_ones B =
     (if B < 0x80 then 0 else if B < 0xC0 then 1 else if B < 0xE0 then 2
      else if B < 0xF0 then 3 else if B < 0xF8 then 4 else 5)"

text \<open>
  The code point of a multi-octet UTF-8 sequence, when the sequence is valid: every
  continuation octet is \<open>10xxxxxx\<close>, the encoding is the shortest one, and the code point
  is neither a surrogate nor above \<open>0x10FFFF\<close>.
\<close>

definition is_cont :: "nat \<Rightarrow> bool" where
  "is_cont b = (0x80 \<le> b \<and> b \<le> 0xBF)"

fun utf8_codepoint :: "nat list \<Rightarrow> nat option" where
  "utf8_codepoint [b0, b1] =
     (let v = (b0 - 0xC0) * 64 + (b1 - 0x80)
      in if is_cont b1 \<and> 0x80 \<le> v then Some v else None)"
| "utf8_codepoint [b0, b1, b2] =
     (let v = (b0 - 0xE0) * 4096 + (b1 - 0x80) * 64 + (b2 - 0x80)
      in if is_cont b1 \<and> is_cont b2 \<and> 0x800 \<le> v \<and> \<not> (0xD800 \<le> v \<and> v \<le> 0xDFFF)
         then Some v else None)"
| "utf8_codepoint [b0, b1, b2, b3] =
     (let v = (b0 - 0xF0) * 262144 + (b1 - 0x80) * 4096 + (b2 - 0x80) * 64 + (b3 - 0x80)
      in if is_cont b1 \<and> is_cont b2 \<and> is_cont b3 \<and> 0x10000 \<le> v \<and> v \<le> 0x10FFFF
         then Some v else None)"
| "utf8_codepoint bs = None"

definition utf16 :: "nat \<Rightarrow> jsstring" where
  "utf16 v =
     (if v < 0x10000 then [v]
      else [0xD800 + (v - 0x10000) div 0x400, 0xDC00 + (v - 0x10000) mod 0x400])"

text \<open>
  One step of \<open>Decode\<close> at a \<open>%\<close>: the decoded code units and the rest of the string, or
  nothing when the escape is malformed (where \<open>Decode\<close> raises URIError).
\<close>

definition decode_escape :: "jsstring \<Rightarrow> (jsstring \<times> jsstring) option" where
  "decode_escape s =
     (case read_escapes 1 s of
        None \<Rightarrow> None
      | Some (bs, r) \<Rightarrow>
          (let B = hd bs; n = leading_ones B
           in if n = 0 then Some ([B], r)
              else if n = 1 \<or> n > 4 then None
              else (case read_escapes (n - 1) r of
                      None \<Rightarrow> None
                    | Some (cs, r') \<Rightarrow>
                        (case utf8_codepoint (B # cs) of
                           None \<Rightarrow> None
                         | Some v \<Rightarrow> Some (utf16 v, r')))))"

lemma read_escapes_length:
  "read_escapes j s = Some (bs, r) \<Longrightarrow> length r + 3 * j = length s \<and> length bs = j"
proof (induction j s arbitrary: bs r rule: read_escapes.induct)
  case (1 s)
  then show ?case by simp
next
  case (2 j p a b s)
  then show ?case
    by (auto split: if_splits option.splits)
qed simp_all

lemma decode_escape_length:
  "decode_escape s = Some (out, r) \<Longrightarrow> length r < length s"
  unfolding decode_escape_def
  by (auto simp: Let_def split: option.splits if_splits dest!: read_escapes_length)

function decodeURIComponent :: "jsstring \<Rightarrow> js_error + jsstring" where
  "decodeURIComponent [] = Inr []"
| "decodeURIComponent (c # s) =
     (if c \<noteq> 37 then prepend [c] (decodeURIComponent s)
      else (case decode_escape (c # s) of
              None \<Rightarrow> Inl URIError
            | Some (out, r) \<Rightarrow> prepend out (decodeURIComponent r)))"
  by pat_completeness auto
termination
  by (relation "measure length") (auto dest: decode_escape_length)

section \<open>QueryString.encode\<close>

definition encode :: "jsvalue \<Rightarrow> js_error + jsstring" where
  "encode s =
     (case encodeURIComponent (ToString s) of
        Inl e \<Rightarrow> Inl e
      | Inr t \<Rightarrow> Inr (gsub 3 re_pct20 (\<lambda>_. [43]) t))"

section \<open>The QueryString object\<close>

text \<open>
  A pair object \<open>{key_enc, key_dec, val_enc, val_dec}\<close> and the two fields of a
  QueryString: \<open>dict\<close>, an object used as a dictionary from decoded keys to arrays of
  decoded values, and \<open>alist\<close>, the array of pairs. The dictionary is an association list
  in the order in which its properties were created.
\<close>

record pair =
  key_enc :: jsstring
  key_dec :: jsstring
  val_enc :: jsvalue
  val_dec :: jsvalue

type_synonym jsdict = "(jsstring \<times> jsvalue list) list"

record querystring =
  dict :: jsdict
  alist :: "pair list"

subsection \<open>Property access on the dictionary object\<close>

text \<open>
  \<open>dict\<close> is created by \<open>{}\<close>, so it inherits the properties of \<open>Object.prototype\<close>. A
  read \<open>dict[k]\<close> of a key that is not an own property finds the inherited one.
\<close>

definition Object_prototype_names :: "jsstring list" where
  "Object_prototype_names =
     [js ''constructor'', js ''hasOwnProperty'', js ''isPrototypeOf'',
      js ''propertyIsEnumerable'', js ''toLocaleString'', js ''toString'', js ''valueOf'',
      js ''__proto__'', js ''__defineGetter__'', js ''__defineSetter__'',
      js ''__lookupGetter__'', js ''__lookupSetter__'']"

text \<open>
  \<open>d.hasOwnProperty(k)\<close>: the method is itself looked up on \<open>d\<close>; when \<open>d\<close> has an own
  property of that name the call is a call of an array and raises TypeError.
\<close>

definition hasOwnProperty :: "(jsstring \<times> 'a) list \<Rightarrow> jsstring \<Rightarrow> js_error + bool" where
  "hasOwnProperty d k =
     (if map_of d (js ''hasOwnProperty'') \<noteq> None then Inl TypeError
      else Inr (map_of d k \<noteq> None))"

text \<open>
  The assignment \<open>d[k] = vs\<close>: an own property keeps its place, a new one is added last;
  assigning to \<open>__proto__\<close> sets the prototype and creates no own property.
\<close>

definition put :: "(jsstring \<times> 'a) list \<Rightarrow> jsstring \<Rightarrow> 'a \<Rightarrow> (jsstring \<times> 'a) list" where
  "put d k vs = (if k = js ''__proto__'' then d else AList.update k vs d)"

text \<open>
  The order in which \<open>for (var k in d)\<close> visits the own properties of \<open>d\<close> is that of
  \<open>OrdinaryOwnPropertyKeys\<close> of ECMA-262, which is behaviour of the host: first the keys
  that are array indices, in ascending numeric order, then the other keys in the order in
  which the properties were created. An array index is the decimal numeral, without a
  leading zero, of an integer below \<open>2^32 - 1\<close>.
\<close>

definition is_digit :: "nat \<Rightarrow> bool" where
  "is_digit c = (48 \<le> c \<and> c \<le> 57)"

definition digits_val :: "jsstring \<Rightarrow> nat" where
  "digits_val k = foldl (\<lambda>n c. 10 * n + (c - 48)) 0 k"

definition is_array_index :: "jsstring \<Rightarrow> bool" where
  "is_array_index k =
     (k \<noteq> [] \<and> list_all is_digit k \<and> (hd k \<noteq> 48 \<or> k = [48]) \<and> digits_val k < 4294967295)"

definition for_in :: "(jsstring \<times> 'a) list \<Rightarrow> (jsstring \<times> 'a) list" where
  "for_in d =
     sort_key (\<lambda>ka. digits_val (fst ka)) (filter (\<lambda>ka. is_array_index (fst ka)) d) @
     filter (\<lambda>ka. \<not> is_array_index (fst ka)) d"

subsection \<open>The constructor\<close>

text \<open>The class \<open>[=&]\<close>.\<close>

definition cls_sep :: "nat \<Rightarrow> bool" where
  "cls_sep c = (c = 61 \<or> c = 38)"

text \<open>
  One call \<open>re.exec(qs)\<close> of \<open>/([^=&]+)(=([^&]*))?/g\<close> on what is left of the string behind
  \<open>lastIndex\<close>: the match starts at the first code unit that is neither \<open>=\<close> nor \<open>&\<close>; group
  1 is the longest run of such code units; when \<open>=\<close> follows, group 3 is the longest run
  without \<open>&\<close> behind it, else group 3 is undefined. The result is group 1, group 3 and the
  string behind the match; no match is \<open>None\<close>.
\<close>

definition re_exec :: "jsstring \<Rightarrow> (jsstring \<times> jsstring option \<times> jsstring) option" where
  "re_exec s =
     (case dropWhile cls_sep s of
        [] \<Rightarrow> None
      | c # r \<Rightarrow>
          (let g1 = takeWhile (\<lambda>x. \<not> cls_sep x) (c # r);
               rest = dropWhile (\<lambda>x. \<not> cls_sep x) (c # r)
           in case rest of
                [] \<Rightarrow> Some (g1, None, [])
              | e # r2 \<Rightarrow>
                  if e = 61
                  then Some (g1, Some (takeWhile (\<lambda>x. x \<noteq> 38) r2), dropWhile (\<lambda>x. x \<noteq> 38) r2)
                  else Some (g1, None, rest)))"

text \<open>
  The statement \<open>if (this.dict[key_dec]) this.dict[key_dec].push(val_dec); else
  this.dict[key_dec] = [val_dec];\<close>. An own property holds an array, which is truthy. An
  inherited property is truthy too and has no \<open>push\<close>: TypeError.
\<close>

definition dict_add :: "jsdict \<Rightarrow> jsstring \<Rightarrow> jsvalue \<Rightarrow> js_error + jsdict" where
  "dict_add d k v =
     (case map_of d k of
        Some vs \<Rightarrow> Inr (AList.update k (vs @ [v]) d)
      | None \<Rightarrow>
          if k \<in> set Object_prototype_names then Inl TypeError
          else Inr (put d k [v]))"

text \<open>The body of the \<open>while\<close> loop for one match.\<close>

definition add_match :: "querystring \<Rightarrow> jsstring \<Rightarrow> jsstring option \<Rightarrow> js_error + querystring" where
  "add_match this g1 g3 =
     (let kenc = g1;
          venc = (case g3 of None \<Rightarrow> Null | Some v \<Rightarrow> Str v)
      in case decodeURIComponent (gsub 1 re_plus (\<lambda>_. [32]) kenc) of
           Inl e \<Rightarrow> Inl e
         | Inr kdec \<Rightarrow>
             (let vdec = (case g3 of None \<Rightarrow> Null | Some v \<Rightarrow> Str (decode v))
              in case dict_add (dict this) kdec vdec of
                   Inl e \<Rightarrow> Inl e
                 | Inr d \<Rightarrow>
                     Inr \<lparr>dict = d,
                          alist = alist this @
                            [\<lparr>key_enc = kenc, key_dec = kdec, val_enc = venc, val_dec = vdec\<rparr>]\<rparr>))"

lemma re_exec_length: "re_exec s = Some (g1, g3, rest) \<Longrightarrow> length rest < length s"
proof -
  assume a: "re_exec s = Some (g1, g3, rest)"
  have d1: "length (dropWhile P xs) \<le> length xs" for P :: "nat \<Rightarrow> bool" and xs
    by (rule length_dropWhile_le)
  obtain c r where cr: "dropWhile cls_sep s = c # r"
    using a by (auto simp: re_exec_def split: list.splits)
  have nsep: "\<not> cls_sep c"
    using cr by (metis hd_dropWhile list.sel(1) list.distinct(1))
  have l0: "Suc (length r) \<le> length s"
    using d1 [of cls_sep s] cr by simp
  have l1: "length (dropWhile (\<lambda>x. \<not> cls_sep x) r) \<le> length r"
    by (rule d1)
  have a': "(case dropWhile (\<lambda>x. \<not> cls_sep x) r of
               [] \<Rightarrow> Some (c # takeWhile (\<lambda>x. \<not> cls_sep x) r, None, [])
             | e # r2 \<Rightarrow>
                 if e = 61
                 then Some (c # takeWhile (\<lambda>x. \<not> cls_sep x) r,
                        Some (takeWhile (\<lambda>x. x \<noteq> 38) r2), dropWhile (\<lambda>x. x \<noteq> 38) r2)
                 else Some (c # takeWhile (\<lambda>x. \<not> cls_sep x) r, None,
                        dropWhile (\<lambda>x. \<not> cls_sep x) r)) = Some (g1, g3, rest)"
    using a nsep by (simp add: re_exec_def cr Let_def)
  show ?thesis
  proof (cases "dropWhile (\<lambda>x. \<not> cls_sep x) r")
    case Nil
    have "rest = []"
      using a' unfolding Nil by simp
    then show ?thesis using l0 by auto
  next
    case (Cons e r2)
    have "length (dropWhile (\<lambda>x. x \<noteq> 38) r2) \<le> length r2"
      by (rule d1)
    moreover have "Suc (length r2) \<le> length r"
      using l1 Cons by simp
    moreover have "rest = dropWhile (\<lambda>x. x \<noteq> 38) r2 \<or> rest = e # r2"
      using a' unfolding Cons by (simp split: if_splits)
    ultimately show ?thesis
      using l0 by auto
  qed
qed

function parse_loop :: "jsstring \<Rightarrow> querystring \<Rightarrow> js_error + querystring" where
  "parse_loop qs this =
     (case re_exec qs of
        None \<Rightarrow> Inr this
      | Some (g1, g3, rest) \<Rightarrow>
          (case add_match this g1 g3 of
             Inl e \<Rightarrow> Inl e
           | Inr this' \<Rightarrow> parse_loop rest this'))"
  by pat_completeness auto
termination
  by (relation "measure (\<lambda>(qs, this). length qs)") (auto dest: re_exec_length)

declare parse_loop.simps [simp del]

text \<open>
  \<open>new QueryString(qs)\<close>. The call without an argument, \<open>new QueryString()\<close>, is this one at
  \<open>location.search\<close>.
\<close>

definition QueryString :: "jsstring \<Rightarrow> js_error + querystring" where
  "QueryString qs0 =
     (let qs = (if take 1 qs0 = [63] then drop 1 qs0 else qs0)
      in parse_loop qs \<lparr>dict = [], alist = []\<rparr>)"

subsection \<open>Static helpers\<close>

text \<open>
  \<open>QueryString.mapDict\<close>: \<open>fkv\<close> returns \<open>None\<close> for \<open>undefined\<close>. The loop runs over the own
  properties of \<open>d\<close> in the order of \<open>for_in\<close>.
\<close>

fun mapDict_loop ::
  "jsdict \<Rightarrow> (jsstring \<Rightarrow> jsvalue list \<Rightarrow> jsvalue list option) \<Rightarrow> jsdict \<Rightarrow> jsdict \<Rightarrow> js_error + jsdict" where
  "mapDict_loop d fkv [] ret = Inr ret"
| "mapDict_loop d fkv ((k, vs) # ps) ret =
     (case hasOwnProperty d k of
        Inl e \<Rightarrow> Inl e
      | Inr own \<Rightarrow>
          if \<not> own then mapDict_loop d fkv ps ret
          else (case fkv k vs of
                  None \<Rightarrow> mapDict_loop d fkv ps ret
                | Some replace \<Rightarrow> mapDict_loop d fkv ps (put ret k replace)))"

definition mapDict ::
  "jsdict \<Rightarrow> (jsstring \<Rightarrow> jsvalue list \<Rightarrow> jsvalue list option) \<Rightarrow> js_error + jsdict" where
  "mapDict d fkv = mapDict_loop d fkv (for_in d) []"

text \<open>\<open>QueryString.filter\<close>.\<close>

fun filter_loop :: "'a list \<Rightarrow> ('a \<Rightarrow> bool) \<Rightarrow> 'a list \<Rightarrow> 'a list" where
  "filter_loop [] fe ret = ret"
| "filter_loop (x # arr) fe ret = filter_loop arr fe (if fe x then ret @ [x] else ret)"

definition filter_arr :: "'a list \<Rightarrow> ('a \<Rightarrow> bool) \<Rightarrow> 'a list" where
  "filter_arr arr fe = filter_loop arr fe []"

subsection \<open>Instance methods\<close>

definition qs_value :: "querystring \<Rightarrow> jsstring \<Rightarrow> js_error + jsvalue" where
  "qs_value this key =
     (case hasOwnProperty (dict this) key of
        Inl e \<Rightarrow> Inl e
      | Inr own \<Rightarrow>
          if \<not> own then Inr Undefined
          else (let vs = the (map_of (dict this) key)
                in Inr (if vs = [] then Undefined else last vs)))"

definition qs_values :: "querystring \<Rightarrow> jsstring \<Rightarrow> js_error + jsvalue list" where
  "qs_values this key =
     (case hasOwnProperty (dict this) key of
        Inl e \<Rightarrow> Inl e
      | Inr own \<Rightarrow> Inr (if own then the (map_of (dict this) key) else []))"

fun keys_loop ::
  "(jsstring \<times> 'a) list \<Rightarrow> (jsstring \<times> 'a) list \<Rightarrow> jsstring list \<Rightarrow> js_error + jsstring list" where
  "keys_loop d [] a = Inr a"
| "keys_loop d ((key, vs) # ps) a =
     (case hasOwnProperty d key of
        Inl e \<Rightarrow> Inl e
      | Inr own \<Rightarrow> keys_loop d ps (if own then a @ [key] else a))"

definition qs_keys :: "querystring \<Rightarrow> js_error + jsstring list" where
  "qs_keys this = keys_loop (dict this) (for_in (dict this)) []"

text \<open>
  \<open>plus\<close> and \<open>minus\<close> create their result with \<open>new QueryString()\<close>, which parses
  \<open>location.search\<close> (the parameter \<open>loc\<close>) before its two fields are overwritten.
\<close>

definition qs_plus :: "jsstring \<Rightarrow> querystring \<Rightarrow> jsstring \<Rightarrow> jsvalue \<Rightarrow> js_error + querystring" where
  "qs_plus loc this k v =
     (case QueryString loc of
        Inl e \<Rightarrow> Inl e
      | Inr retQS \<Rightarrow>
          (case hasOwnProperty (dict this) k of
             Inl e \<Rightarrow> Inl e
           | Inr own \<Rightarrow>
               (case (if own
                      then mapDict (dict this)
                             (\<lambda>ok ovs. if ok \<noteq> k then Some ovs else Some (ovs @ [v]))
                      else (case mapDict (dict this) (\<lambda>_ vs. Some vs) of
                              Inl e \<Rightarrow> Inl e
                            | Inr d \<Rightarrow> Inr (put d k [v]))) of
                  Inl e \<Rightarrow> Inl e
                | Inr d \<Rightarrow>
                    (case encode (Str k) of
                       Inl e \<Rightarrow> Inl e
                     | Inr kenc \<Rightarrow>
                         (case encode v of
                            Inl e \<Rightarrow> Inl e
                          | Inr venc \<Rightarrow>
                              Inr (retQS\<lparr>dict := d,
                                     alist := alist this @
                                       [\<lparr>key_enc = kenc, key_dec = k,
                                         val_enc = Str venc, val_dec = v\<rparr>]\<rparr>))))))"

text \<open>
  \<open>minus\<close>: \<open>arg2\<close> is \<open>None\<close> for the call \<open>minus(k)\<close> and \<open>Some v\<close> for \<open>minus(k, v)\<close>, so that
  \<open>checkVals\<close> is \<open>arg2 \<noteq> None\<close>; in the one-argument call \<open>v\<close> is \<open>undefined\<close>.
\<close>

definition qs_minus :: "jsstring \<Rightarrow> querystring \<Rightarrow> jsstring \<Rightarrow> jsvalue option \<Rightarrow> js_error + querystring" where
  "qs_minus loc this k arg2 =
     (let checkVals = (arg2 \<noteq> None);
          v = (case arg2 of None \<Rightarrow> Undefined | Some w \<Rightarrow> w)
      in case QueryString loc of
           Inl e \<Rightarrow> Inl e
         | Inr retQS \<Rightarrow>
             (case mapDict (dict this)
                     (\<lambda>ok ovs.
                        if checkVals
                        then (let vs = filter_arr ovs (\<lambda>el. el \<noteq> v)
                              in if length vs = 0 then None else Some vs)
                        else (if ok = k then None else Some ovs)) of
                Inl e \<Rightarrow> Inl e
              | Inr d \<Rightarrow>
                  Inr (retQS\<lparr>dict := d,
                         alist := filter_arr (alist this)
                           (\<lambda>pair. let matches = (key_dec pair = k \<and>
                                                   (\<not> checkVals \<or> val_dec pair = v))
                                    in \<not> matches)\<rparr>)))"

text \<open>\<open>toString\<close>: the loop appends to \<open>ret\<close>; \<open>ret.substring(1)\<close> drops the first \<open>&\<close>.\<close>

fun toString_loop :: "pair list \<Rightarrow> jsstring \<Rightarrow> jsstring" where
  "toString_loop [] ret = ret"
| "toString_loop (pair # al) ret =
     toString_loop al
       (let ret1 = ret @ [38] @ key_enc pair
        in if val_enc pair \<noteq> Null then ret1 @ [61] @ ToString (val_enc pair) else ret1)"

definition toString :: "querystring \<Rightarrow> jsstring" where
  "toString this =
     (let al = alist this
      in if length al = 0 then [] else [63] @ drop 1 (toString_loop al []))"

text \<open>
  What one round of the loop of \<open>toString\<close> appends behind the \<open>&\<close>: \<open>pair.key_enc\<close>, and
  \<open>'=' + pair.val_enc\<close> when \<open>pair.val_enc !== null\<close>.
\<close>

definition stored_text :: "pair \<Rightarrow> jsstring" where
  "stored_text p =
     key_enc p @
     (case val_enc p of
        Null \<Rightarrow> []
      | Undefined \<Rightarrow> [61] @ js ''undefined''
      | Str v \<Rightarrow> [61] @ v)"

section \<open>The objects on a heap\<close>

text \<open>
  \<open>plus\<close> and \<open>minus\<close> build their result from parts of the receiver: value arrays are
  shared between the dictionaries of the two objects, and arrays are changed in place by
  \<open>push\<close>. To state that the receiver is not changed, the objects are put on a heap: a
  list of cells, an address being an index. A cell is an array of values, an array of
  pair objects, a dictionary object (its own properties, each holding the address of a
  value array) or a QueryString instance (the addresses of its \<open>dict\<close> and its \<open>alist\<close>).
  Pair objects are never written after they are created; they are kept in the array.
\<close>

datatype cell =
  Arr "jsvalue list"
| Pairs "pair list"
| Dict "(jsstring \<times> nat) list"
| Inst nat nat

type_synonym heap = "cell list"

text \<open>
  A heap computation returns the heap it leaves with a value, or with the error thrown;
  \<open>Stuck\<close> says that an address did not hold the kind of object the code reads there,
  which no JavaScript heap allows.
\<close>

datatype 'a outcome = Returned 'a | Threw js_error | Stuck

definition hbind ::
  "heap \<times> 'a outcome \<Rightarrow> (heap \<Rightarrow> 'a \<Rightarrow> heap \<times> 'b outcome) \<Rightarrow> heap \<times> 'b outcome" where
  "hbind m f =
     (case m of
        (h, Returned x) \<Rightarrow> f h x
      | (h, Threw e) \<Rightarrow> (h, Threw e)
      | (h, Stuck) \<Rightarrow> (h, Stuck))"

definition h_return :: "heap \<Rightarrow> 'a \<Rightarrow> heap \<times> 'a outcome" where
  "h_return h x = (h, Returned x)"

definition h_throw :: "heap \<Rightarrow> js_error \<Rightarrow> heap \<times> 'a outcome" where
  "h_throw h e = (h, Threw e)"

definition lift_err :: "heap \<Rightarrow> js_error + 'a \<Rightarrow> heap \<times> 'a outcome" where
  "lift_err h r = (case r of Inl e \<Rightarrow> (h, Threw e) | Inr x \<Rightarrow> (h, Returned x))"

definition h_alloc :: "heap \<Rightarrow> cell \<Rightarrow> heap \<times> nat outcome" where
  "h_alloc h c = (h @ [c], Returned (length h))"

definition h_write :: "heap \<Rightarrow> nat \<Rightarrow> cell \<Rightarrow> heap \<times> unit outcome" where
  "h_write h a c = (h[a := c], Returned ())"

definition lookup :: "heap \<Rightarrow> nat \<Rightarrow> cell option" where
  "lookup h a = (if a < length h then Some (h ! a) else None)"

definition get_arr :: "heap \<Rightarrow> nat \<Rightarrow> heap \<times> jsvalue list outcome" where
  "get_arr h a = (case lookup h a of Some (Arr vs) \<Rightarrow> (h, Returned vs) | _ \<Rightarrow> (h, Stuck))"

definition get_pairs :: "heap \<Rightarrow> nat \<Rightarrow> heap \<times> pair list outcome" where
  "get_pairs h a = (case lookup h a of Some (Pairs ps) \<Rightarrow> (h, Returned ps) | _ \<Rightarrow> (h, Stuck))"

definition get_dict :: "heap \<Rightarrow> nat \<Rightarrow> heap \<times> (jsstring \<times> nat) list outcome" where
  "get_dict h a = (case lookup h a of Some (Dict ps) \<Rightarrow> (h, Returned ps) | _ \<Rightarrow> (h, Stuck))"

definition get_inst :: "heap \<Rightarrow> nat \<Rightarrow> heap \<times> (nat \<times> nat) outcome" where
  "get_inst h a = (case lookup h a of Some (Inst d al) \<Rightarrow> (h, Returned (d, al)) | _ \<Rightarrow> (h, Stuck))"

subsection \<open>The constructor on the heap\<close>

text \<open>\<open>arr.push(p)\<close> on an array of pairs.\<close>

definition h_push_pair :: "heap \<Rightarrow> nat \<Rightarrow> pair \<Rightarrow> heap \<times> unit outcome" where
  "h_push_pair h al p = hbind (get_pairs h al) (\<lambda>h ps. h_write h al (Pairs (ps @ [p])))"

text \<open>
  \<open>if (this.dict[key_dec]) this.dict[key_dec].push(val_dec); else this.dict[key_dec] =
  [val_dec];\<close> with \<open>this.dict\<close> at address \<open>d\<close>: the array found is changed in place.
\<close>

definition h_dict_add :: "heap \<Rightarrow> nat \<Rightarrow> jsstring \<Rightarrow> jsvalue \<Rightarrow> heap \<times> unit outcome" where
  "h_dict_add h d kdec vdec =
     hbind (get_dict h d) (\<lambda>h props.
       case map_of props kdec of
         Some a \<Rightarrow> hbind (get_arr h a) (\<lambda>h vs. h_write h a (Arr (vs @ [vdec])))
       | None \<Rightarrow>
           if kdec \<in> set Object_prototype_names then h_throw h TypeError
           else hbind (h_alloc h (Arr [vdec])) (\<lambda>h a. h_write h d (Dict (put props kdec a))))"

definition h_add_match ::
  "heap \<Rightarrow> nat \<Rightarrow> nat \<Rightarrow> jsstring \<Rightarrow> jsstring option \<Rightarrow> heap \<times> unit outcome" where
  "h_add_match h d al g1 g3 =
     (let kenc = g1;
          venc = (case g3 of None \<Rightarrow> Null | Some v \<Rightarrow> Str v)
      in hbind (lift_err h (decodeURIComponent (gsub 1 re_plus (\<lambda>_. [32]) kenc))) (\<lambda>h kdec.
           let vdec = (case g3 of None \<Rightarrow> Null | Some v \<Rightarrow> Str (decode v))
           in hbind (h_dict_add h d kdec vdec) (\<lambda>h u.
                h_push_pair h al
                  \<lparr>key_enc = kenc, key_dec = kdec, val_enc = venc, val_dec = vdec\<rparr>)))"

function h_parse_loop :: "jsstring \<Rightarrow> heap \<Rightarrow> nat \<Rightarrow> nat \<Rightarrow> heap \<times> unit outcome" where
  "h_parse_loop qs h d al =
     (case re_exec qs of
        None \<Rightarrow> h_return h ()
      | Some (g1, g3, rest) \<Rightarrow>
          hbind (h_add_match h d al g1 g3) (\<lambda>h' u. h_parse_loop rest h' d al))"
  by pat_completeness auto
termination
  by (relation "measure (\<lambda>(qs, h, d, al). length qs)") (auto dest: re_exec_length)

declare h_parse_loop.simps [simp del]

text \<open>
  \<open>new QueryString(qs)\<close>: the dictionary, the pair array and the instance are new
  objects. (The order in which they get their addresses has no effect.)
\<close>

definition h_QueryString :: "heap \<Rightarrow> jsstring \<Rightarrow> heap \<times> nat outcome" where
  "h_QueryString h qs0 =
     hbind (h_alloc h (Dict [])) (\<lambda>h d.
     hbind (h_alloc h (Pairs [])) (\<lambda>h al.
     hbind (h_alloc h (Inst d al)) (\<lambda>h this.
       let qs = (if take 1 qs0 = [63] then drop 1 qs0 else qs0)
       in hbind (h_parse_loop qs h d al) (\<lambda>h u. h_return h this))))"

subsection \<open>mapDict, plus and minus on the heap\<close>

text \<open>
  \<open>QueryString.mapDict(d, fkv)\<close>: the callback gets the address of a value array and
  returns the address of one (or \<open>undefined\<close>); it may create arrays. \<open>ret\<close> is the address
  of the new dictionary.
\<close>

fun h_mapDict_loop ::
  "(jsstring \<times> nat) list \<Rightarrow> (heap \<Rightarrow> jsstring \<Rightarrow> nat \<Rightarrow> heap \<times> nat option outcome) \<Rightarrow>
   (jsstring \<times> nat) list \<Rightarrow> heap \<Rightarrow> nat \<Rightarrow> heap \<times> unit outcome" where
  "h_mapDict_loop dprops fkv [] h ret = h_return h ()"
| "h_mapDict_loop dprops fkv ((k, a) # ps) h ret =
     hbind (lift_err h (hasOwnProperty dprops k)) (\<lambda>h own.
       if \<not> own then h_mapDict_loop dprops fkv ps h ret
       else hbind (fkv h k a) (\<lambda>h replace.
              case replace of
                None \<Rightarrow> h_mapDict_loop dprops fkv ps h ret
              | Some r \<Rightarrow>
                  hbind (get_dict h ret) (\<lambda>h rprops.
                  hbind (h_write h ret (Dict (put rprops k r))) (\<lambda>h u.
                    h_mapDict_loop dprops fkv ps h ret))))"

definition h_mapDict ::
  "heap \<Rightarrow> nat \<Rightarrow> (heap \<Rightarrow> jsstring \<Rightarrow> nat \<Rightarrow> heap \<times> nat option outcome) \<Rightarrow> heap \<times> nat outcome" where
  "h_mapDict h d fkv =
     hbind (get_dict h d) (\<lambda>h dprops.
     hbind (h_alloc h (Dict [])) (\<lambda>h ret.
     hbind (h_mapDict_loop dprops fkv (for_in dprops) h ret) (\<lambda>h u. h_return h ret)))"

text \<open>
  The callbacks of \<open>plus\<close>: for the key \<open>k\<close>, \<open>ovs.slice()\<close> is a new array and \<open>push\<close>
  changes that one; every other key keeps the array it has.
\<close>

definition plus_own ::
  "jsstring \<Rightarrow> jsvalue \<Rightarrow> heap \<Rightarrow> jsstring \<Rightarrow> nat \<Rightarrow> heap \<times> nat option outcome" where
  "plus_own k v h ok ovs =
     (if ok \<noteq> k then h_return h (Some ovs)
      else hbind (get_arr h ovs) (\<lambda>h vs.
           hbind (h_alloc h (Arr vs)) (\<lambda>h retVs.
           hbind (get_arr h retVs) (\<lambda>h rv.
           hbind (h_write h retVs (Arr (rv @ [v]))) (\<lambda>h u.
             h_return h (Some retVs))))))"

definition plus_other :: "heap \<Rightarrow> jsstring \<Rightarrow> nat \<Rightarrow> heap \<times> nat option outcome" where
  "plus_other h ok vs = h_return h (Some vs)"

text \<open>The assignments \<open>obj.dict = d\<close> and \<open>obj.alist = al\<close>.\<close>

definition set_dict :: "heap \<Rightarrow> nat \<Rightarrow> nat \<Rightarrow> heap \<times> unit outcome" where
  "set_dict h obj d = hbind (get_inst h obj) (\<lambda>h da. h_write h obj (Inst d (snd da)))"

definition set_alist :: "heap \<Rightarrow> nat \<Rightarrow> nat \<Rightarrow> heap \<times> unit outcome" where
  "set_alist h obj al = hbind (get_inst h obj) (\<lambda>h da. h_write h obj (Inst (fst da) al))"

definition h_plus :: "jsstring \<Rightarrow> heap \<Rightarrow> nat \<Rightarrow> jsstring \<Rightarrow> jsvalue \<Rightarrow> heap \<times> nat outcome" where
  "h_plus loc h this k v =
     hbind (h_QueryString h loc) (\<lambda>h retQS.
     hbind (get_inst h this) (\<lambda>h da.
     hbind (get_dict h (fst da)) (\<lambda>h props.
     hbind (lift_err h (hasOwnProperty props k)) (\<lambda>h own.
     hbind (if own
            then hbind (h_mapDict h (fst da) (plus_own k v)) (\<lambda>h nd. set_dict h retQS nd)
            else hbind (h_mapDict h (fst da) plus_other) (\<lambda>h nd.
                 hbind (set_dict h retQS nd) (\<lambda>h u.
                 hbind (h_alloc h (Arr [v])) (\<lambda>h a.
                 hbind (get_dict h nd) (\<lambda>h nprops.
                   h_write h nd (Dict (put nprops k a))))))) (\<lambda>h u.
     hbind (get_pairs h (snd da)) (\<lambda>h ps.
     hbind (h_alloc h (Pairs ps)) (\<lambda>h al'.
     hbind (set_alist h retQS al') (\<lambda>h u.
     hbind (lift_err h (encode (Str k))) (\<lambda>h kenc.
     hbind (lift_err h (encode v)) (\<lambda>h venc.
     hbind (h_push_pair h al'
              \<lparr>key_enc = kenc, key_dec = k, val_enc = Str venc, val_dec = v\<rparr>) (\<lambda>h u.
       h_return h retQS)))))))))))"

text \<open>The callback of \<open>minus\<close>: \<open>QueryString.filter\<close> returns a new array.\<close>

definition minus_fkv ::
  "bool \<Rightarrow> jsstring \<Rightarrow> jsvalue \<Rightarrow> heap \<Rightarrow> jsstring \<Rightarrow> nat \<Rightarrow> heap \<times> nat option outcome" where
  "minus_fkv checkVals k v h ok ovs =
     (if checkVals
      then hbind (get_arr h ovs) (\<lambda>h os.
           hbind (h_alloc h (Arr (filter_arr os (\<lambda>el. el \<noteq> v)))) (\<lambda>h vs.
             if length (filter_arr os (\<lambda>el. el \<noteq> v)) = 0 then h_return h None
             else h_return h (Some vs)))
      else (if ok = k then h_return h None else h_return h (Some ovs)))"

definition h_minus ::
  "jsstring \<Rightarrow> heap \<Rightarrow> nat \<Rightarrow> jsstring \<Rightarrow> jsvalue option \<Rightarrow> heap \<times> nat outcome" where
  "h_minus loc h this k arg2 =
     (let checkVals = (arg2 \<noteq> None);
          v = (case arg2 of None \<Rightarrow> Undefined | Some w \<Rightarrow> w)
      in hbind (h_QueryString h loc) (\<lambda>h retQS.
         hbind (get_inst h this) (\<lambda>h da.
         hbind (h_mapDict h (fst da) (minus_fkv checkVals k v)) (\<lambda>h nd.
         hbind (set_dict h retQS nd) (\<lambda>h u.
         hbind (get_pairs h (snd da)) (\<lambda>h ps.
         hbind (h_alloc h (Pairs (filter_arr ps
                  (\<lambda>pair. let matches = (key_dec pair = k \<and>
                                          (\<not> checkVals \<or> val_dec pair = v))
                           in \<not> matches)))) (\<lambda>h al'.
         hbind (set_alist h retQS al') (\<lambda>h u.
           h_return h retQS))))))))"

subsection \<open>Reading an object\<close>

text \<open>
  What the methods \<open>value\<close>, \<open>values\<close>, \<open>keys\<close> and \<open>toString\<close> can read of the object at
  an address: its dictionary with the contents of the value arrays, and its pairs.
\<close>

fun load_props :: "heap \<Rightarrow> (jsstring \<times> nat) list \<Rightarrow> jsdict option" where
  "load_props h [] = Some []"
| "load_props h ((k, a) # ps) =
     (case lookup h a of
        Some (Arr vs) \<Rightarrow> map_option ((#) (k, vs)) (load_props h ps)
      | _ \<Rightarrow> None)"

definition load :: "heap \<Rightarrow> nat \<Rightarrow> querystring option" where
  "load h this =
     (case lookup h this of
        Some (Inst d al) \<Rightarrow>
          (case lookup h d of
             Some (Dict props) \<Rightarrow>
               (case lookup h al of
                  Some (Pairs ps) \<Rightarrow>
                    (case load_props h props of
                       Some dct \<Rightarrow> Some \<lparr>dict = dct, alist = ps\<rparr>
                     | None \<Rightarrow> None)
                | _ \<Rightarrow> None)
           | _ \<Rightarrow> None)
      | _ \<Rightarrow> None)"


subsection \<open>The reading methods on the heap\<close>

text \<open>
  \<open>value\<close>, \<open>values\<close>, \<open>keys\<close> and \<open>toString\<close> read the heap and leave it as it is, so that
  only their result is given. \<open>values\<close> returns the array of the dictionary itself; its
  result is given as the elements that array has.
\<close>

definition h_value :: "heap \<Rightarrow> nat \<Rightarrow> jsstring \<Rightarrow> jsvalue outcome" where
  "h_value h this key =
     snd (hbind (get_inst h this) (\<lambda>h da.
          hbind (get_dict h (fst da)) (\<lambda>h props.
          hbind (lift_err h (hasOwnProperty props key)) (\<lambda>h own.
            if \<not> own then h_return h Undefined
            else hbind (get_arr h (the (map_of props key))) (\<lambda>h vs.
                   h_return h (if vs = [] then Undefined else last vs))))))"

definition h_values :: "heap \<Rightarrow> nat \<Rightarrow> jsstring \<Rightarrow> jsvalue list outcome" where
  "h_values h this key =
     snd (hbind (get_inst h this) (\<lambda>h da.
          hbind (get_dict h (fst da)) (\<lambda>h props.
          hbind (lift_err h (hasOwnProperty props key)) (\<lambda>h own.
            if own then get_arr h (the (map_of props key)) else h_return h []))))"

definition h_keys :: "heap \<Rightarrow> nat \<Rightarrow> jsstring list outcome" where
  "h_keys h this =
     snd (hbind (get_inst h this) (\<lambda>h da.
          hbind (get_dict h (fst da)) (\<lambda>h props.
            lift_err h (keys_loop props (for_in props) []))))"

definition h_toString :: "heap \<Rightarrow> nat \<Rightarrow> jsstring outcome" where
  "h_toString h this =
     snd (hbind (get_inst h this) (\<lambda>h da.
          hbind (get_pairs h (snd da)) (\<lambda>h al.
            h_return h (if length al = 0 then [] else [63] @ drop 1 (toString_loop al [])))))"

text \<open>The pair sequence of the object at an address.\<close>

definition h_pairs :: "heap \<Rightarrow> nat \<Rightarrow> pair list outcome" where
  "h_pairs h this = snd (hbind (get_inst h this) (\<lambda>h da. get_pairs h (snd da)))"

text \<open>The result of a method of the model without a heap, as an outcome.\<close>

definition outcome_of :: "js_error + 'a \<Rightarrow> 'a outcome" where
  "outcome_of r = (case r of Inl e \<Rightarrow> Threw e | Inr x \<Rightarrow> Returned x)"


subsection \<open>What a call leaves alone\<close>

text \<open>
  \<open>kept n h h'\<close>: the heap \<open>h'\<close> has every object of \<open>h\<close>, and those at the addresses below
  \<open>n\<close> are as they were. \<open>fresh_props n h d\<close>: the dictionary at \<open>d\<close> holds only arrays at
  addresses from \<open>n\<close> on.
\<close>

definition kept :: "nat \<Rightarrow> heap \<Rightarrow> heap \<Rightarrow> bool" where
  "kept n h h' = (length h \<le> length h' \<and> take n h' = take n h)"

definition fresh_props :: "nat \<Rightarrow> heap \<Rightarrow> nat \<Rightarrow> bool" where
  "fresh_props n h d =
     (case lookup h d of
        Some (Dict props) \<Rightarrow> list_all (\<lambda>ka. n \<le> snd ka) props
      | _ \<Rightarrow> True)"


subsection \<open>The example of the README\<close>

text \<open>
  \<open>blank = new QueryString("")\<close> on the empty heap is the object at address 2,
  \<open>blank.plus("format", "html")\<close> the one at address 5, and \<open>base\<close>, which is
  \<open>blank.plus("format", "html").plus("=a=", "\<dots>")\<close> with the one-character string U+2120,
  the one at address 11 of this heap. \<open>location.search\<close> is empty.
\<close>

definition readme_base_heap :: heap where
  "readme_base_heap =
     fst (h_plus []
            (fst (h_plus [] (fst (h_QueryString [] [])) 2 (js ''format'') (Str (js ''html''))))
            5 (js ''=a='') (Str [0x2120]))"

section \<open>Definitions that follow the specification's words\<close>

text \<open>Strings joined by \<open>&\<close>.\<close>

fun join_amp :: "jsstring list \<Rightarrow> jsstring" where
  "join_amp [] = []"
| "join_amp [x] = x"
| "join_amp (x # y # ys) = x @ [38] @ join_amp (y # ys)"

text \<open>
  The text of one pair as the specification words it: the stored encoded key, followed
  by \<open>=\<close> and the stored encoded value exactly when the value of the pair is not the
  absent marker, which is the decoded value \<open>null\<close>. \<open>toString_spec\<close> is the serialised
  query string made of these texts.
\<close>

definition pair_text :: "pair \<Rightarrow> jsstring" where
  "pair_text p =
     key_enc p @ (if val_dec p \<noteq> Null then [61] @ ToString (val_enc p) else [])"

definition toString_spec :: "querystring \<Rightarrow> jsstring" where
  "toString_spec q = (if alist q = [] then [] else [63] @ join_amp (map pair_text (alist q)))"

text \<open>
  All matches that the loop of the constructor sees, as (group 1, group 3), and the loop
  body run over a list of matches.
\<close>

function matches :: "jsstring \<Rightarrow> (jsstring \<times> jsstring option) list" where
  "matches s =
     (case re_exec s of
        None \<Rightarrow> []
      | Some (g1, g3, rest) \<Rightarrow> (g1, g3) # matches rest)"
  by pat_completeness auto
termination
  by (relation "measure length") (auto dest: re_exec_length)

fun add_matches :: "querystring \<Rightarrow> (jsstring \<times> jsstring option) list \<Rightarrow> js_error + querystring" where
  "add_matches this [] = Inr this"
| "add_matches this ((g1, g3) # ms) =
     (case add_match this g1 g3 of
        Inl e \<Rightarrow> Inl e
      | Inr this' \<Rightarrow> add_matches this' ms)"

text \<open>The text a match was read from, and what \<open>re_exec\<close> guarantees of a match.\<close>

definition match_text :: "jsstring \<times> jsstring option \<Rightarrow> jsstring" where
  "match_text m = fst m @ (case snd m of None \<Rightarrow> [] | Some v \<Rightarrow> 61 # v)"

definition match_ok :: "jsstring \<times> jsstring option \<Rightarrow> bool" where
  "match_ok m =
     (fst m \<noteq> [] \<and> list_all (\<lambda>c. \<not> cls_sep c) (fst m) \<and>
      (case snd m of None \<Rightarrow> True | Some v \<Rightarrow> list_all (\<lambda>c. c \<noteq> 38) v))"

declare matches.simps [simp del]

text \<open>
  The code point packed from a lead octet without its bits \<open>0xE0\<close> and two continuation
  octets without their bit \<open>0x80\<close>, six bits each.
\<close>

definition utf8_pack3 :: "nat \<Rightarrow> nat \<Rightarrow> nat \<Rightarrow> nat" where
  "utf8_pack3 B1 B2 B3 = (B1 - 0xE0) * 4096 + (B2 - 0x80) * 64 + (B3 - 0x80)"

text \<open>
  The code points of a string, read as \<open>CodePointAt\<close> of ECMA-262 reads them: a lead
  surrogate followed by a trail surrogate is one code point; there are none when a
  surrogate is unpaired.
\<close>

fun code_points :: "jsstring \<Rightarrow> nat list option" where
  "code_points [] = Some []"
| "code_points (c # s) =
     (if \<not> is_lead_surrogate c \<and> \<not> is_trail_surrogate c
      then map_option ((#) c) (code_points s)
      else if is_trail_surrogate c then None
      else (case s of
              [] \<Rightarrow> None
            | d # s' \<Rightarrow>
                if is_trail_surrogate d
                then map_option ((#) ((c - 0xD800) * 0x400 + (d - 0xDC00) + 0x10000))
                       (code_points s')
                else None))"

text \<open>
  What the specification says \<open>encode\<close> writes for one code point: the character itself
  when it is unreserved, \<open>+\<close> for a space, and otherwise the escapes \<open>%XX\<close> of the octets
  of its UTF-8 encoding.
\<close>

definition escape_cp :: "nat \<Rightarrow> jsstring" where
  "escape_cp cp = (if uriUnreserved cp then [cp] else if cp = 32 then [43] else pct_utf8 cp)"

definition encode_spec :: "jsstring \<Rightarrow> js_error + jsstring" where
  "encode_spec s =
     (case code_points s of
        None \<Rightarrow> Inl URIError
      | Some cps \<Rightarrow> Inr (concat (map escape_cp cps)))"

text \<open>The same before \<open>%20\<close> is replaced by \<open>+\<close>.\<close>

definition pct_escape_cp :: "nat \<Rightarrow> jsstring" where
  "pct_escape_cp cp = (if uriUnreserved cp then [cp] else pct_utf8 cp)"

text \<open>
  A string in which every code unit is an unreserved character, a \<open>+\<close>, or belongs to an
  escape \<open>%XX\<close> with upper-case hexadecimal digits.
\<close>

fun escaped_form :: "jsstring \<Rightarrow> bool" where
  "escaped_form [] = True"
| "escaped_form (c # s) =
     (if c = 37
      then (case s of a # b # s' \<Rightarrow> cls_HEX a \<and> cls_HEX b \<and> escaped_form s' | _ \<Rightarrow> False)
      else (uriUnreserved c \<or> c = 43) \<and> escaped_form s)"

text \<open>
  A Unicode scalar value of the Basic Multilingual Plane: a code unit that is no
  surrogate.
\<close>

definition bmp_scalar :: "nat \<Rightarrow> bool" where
  "bmp_scalar c = (c \<le> 0xFFFF \<and> \<not> (0xD800 \<le> c \<and> c \<le> 0xDFFF))"

text \<open>
  The text of one code point between the passes of \<open>decode\<close>: code points from \<open>t\<close> on
  are decoded already, the others are still escaped.
\<close>

definition lit_from :: "nat \<Rightarrow> nat \<Rightarrow> jsstring" where
  "lit_from t c = (if uriUnreserved c \<or> c = 32 \<or> t \<le> c then [c] else pct_utf8 c)"


section \<open>Parsing the documented example\<close>

text \<open>
  Claim C5. Parsing \<open>?a=b&foo=bar&blank=&foo=baz&missing&&&\<close> succeeds and yields
  exactly the five pairs (a, b), (foo, bar), (blank, empty string), (foo, baz) and
  (missing, null) in this order: the trailing \<open>&&&\<close> adds no pair. On the result,
  \<open>values("foo")\<close> is [bar, baz], \<open>value("missing")\<close> is \<open>null\<close> (not the empty string)
  and \<open>value("blank")\<close> is the empty string.
\<close>

theorem parse_documented_example:
  "(case QueryString (js ''?a=b&foo=bar&blank=&foo=baz&missing&&&'') of
      Inl e \<Rightarrow> False
    | Inr q \<Rightarrow>
        map (\<lambda>p. (key_dec p, val_dec p)) (alist q) =
          [(js ''a'', Str (js ''b'')), (js ''foo'', Str (js ''bar'')),
           (js ''blank'', Str (js '''')), (js ''foo'', Str (js ''baz'')),
           (js ''missing'', Null)] \<and>
        qs_values q (js ''foo'') = Inr [Str (js ''bar''), Str (js ''baz'')] \<and>
        qs_value q (js ''missing'') = Inr Null \<and>
        qs_value q (js ''blank'') = Inr (Str (js '''')))"
  by code_simp

section \<open>Serialisation\<close>

lemma toString_loop_eq:
  "toString_loop al ret = ret @ concat (map (\<lambda>p. 38 # stored_text p) al)"
proof (induction al arbitrary: ret)
  case Nil
  then show ?case by simp
next
  case (Cons p al)
  show ?case
    by (cases "val_enc p") (simp_all add: Cons.IH stored_text_def Let_def)
qed

lemma join_amp_Cons: "join_amp (x # ys) = x @ concat (map (\<lambda>y. 38 # y) ys)"
  by (induction ys arbitrary: x) simp_all

text \<open>
  What \<open>toString\<close> writes, for every object: nothing when there is no pair, otherwise \<open>?\<close>
  and the texts of the pairs joined by \<open>&\<close>, where \<open>=\<close> and the stored encoded value are
  written when the stored encoded value \<open>val_enc\<close> is not \<open>null\<close>.
\<close>

lemma toString_stored:
  "toString q = (if alist q = [] then [] else [63] @ join_amp (map stored_text (alist q)))"
proof (cases "alist q")
  case Nil
  then show ?thesis by (simp add: toString_def)
next
  case (Cons p al)
  have "drop 1 (toString_loop (p # al) []) = join_amp (map stored_text (p # al))"
    by (simp add: toString_loop_eq join_amp_Cons comp_def
        del: toString_loop.simps join_amp.simps)
  then show ?thesis
    using Cons by (simp add: toString_def del: toString_loop.simps join_amp.simps)
qed

text \<open>
  This is the serialisation of the specification for every object in which a pair has the
  stored encoded value \<open>null\<close> exactly when its value is \<open>null\<close>.
\<close>

lemma stored_text_pair_text:
  "(val_enc p = Null) = (val_dec p = Null) \<Longrightarrow> stored_text p = pair_text p"
  by (cases "val_enc p") (simp_all add: stored_text_def pair_text_def)

lemma toString_spec_agrees:
  assumes "list_all (\<lambda>p. (val_enc p = Null) = (val_dec p = Null)) (alist q)"
  shows "toString q = toString_spec q"
proof -
  have m: "map stored_text (alist q) = map pair_text (alist q)"
    using assms by (simp add: list_all_iff stored_text_pair_text)
  show ?thesis
    unfolding toString_stored toString_spec_def m ..
qed

section \<open>Defects found by evaluation\<close>

text \<open>
  Claim C6. \<open>toString\<close> writes \<open>=\<close> and the stored encoded value of a pair exactly when the
  value of the pair is not the absent marker. This fails for a pair added by
  \<open>plus(k, null)\<close>: \<open>plus\<close> stores \<open>encode(null)\<close>, the string \<open>null\<close>, as the encoded value, so
  that \<open>new QueryString("").plus("k", null)\<close> has the value \<open>null\<close> for \<open>k\<close> and \<open>toString\<close>
  returns \<open>?k=null\<close> where the specification has \<open>?k\<close>.
\<close>

theorem plus_null_writes_equals:
  "(case QueryString (js '''') of
      Inl e \<Rightarrow> False
    | Inr blank \<Rightarrow>
        (case qs_plus (js '''') blank (js ''k'') Null of
           Inl e \<Rightarrow> False
         | Inr q \<Rightarrow>
             map (\<lambda>p. (key_enc p, val_enc p, key_dec p, val_dec p)) (alist q) =
               [(js ''k'', Str (js ''null''), js ''k'', Null)] \<and>
             qs_value q (js ''k'') = Inr Null \<and>
             toString q = js ''?k=null'' \<and>
             toString_spec q = js ''?k''))"
  by code_simp

text \<open>
  Claim C3. The constructor decodes a key with the host's \<open>decodeURIComponent\<close>, which
  raises URIError on a malformed escape, while \<open>decode\<close> leaves the escape as it is:
  parsing \<open>?%zz=1\<close> raises URIError.
\<close>

theorem parse_malformed_key_raises:
  "QueryString (js ''?%zz=1'') = Inl URIError \<and> decode (js ''%zz'') = js ''%zz''"
  by code_simp

text \<open>
  Claim C1. After \<open>new QueryString("?a=1&b=1").minus("a", "1")\<close> the pair (b, 1) is still
  in the pair sequence, and the dictionary is empty: the two-argument \<open>minus\<close> filters
  the value out of the value list of every key.
\<close>

theorem minus_value_breaks_dict:
  "(case QueryString (js ''?a=1&b=1'') of
      Inl e \<Rightarrow> False
    | Inr q \<Rightarrow>
        (case qs_minus (js '''') q (js ''a'') (Some (Str (js ''1''))) of
           Inl e \<Rightarrow> False
         | Inr q' \<Rightarrow>
             map (\<lambda>p. (key_dec p, val_dec p)) (alist q') = [(js ''b'', Str (js ''1''))] \<and>
             dict q' = []))"
  by code_simp

text \<open>
  Claim C2. With the same objects, \<open>values("b")\<close> is [1] before \<open>minus("a", "1")\<close> and
  empty after it, although the key b differs from the key a.
\<close>

theorem minus_value_changes_other_key:
  "(case QueryString (js ''?a=1&b=1'') of
      Inl e \<Rightarrow> False
    | Inr q \<Rightarrow>
        (case qs_minus (js '''') q (js ''a'') (Some (Str (js ''1''))) of
           Inl e \<Rightarrow> False
         | Inr q' \<Rightarrow>
             qs_values q (js ''b'') = Inr [Str (js ''1'')] \<and>
             qs_values q' (js ''b'') = Inr []))"
  by code_simp

theorem minus_value_breaks_dict_witness:
  "\<exists>q q'. QueryString (js ''?a=1&b=1'') = Inr q \<and>
     qs_minus (js '''') q (js ''a'') (Some (Str (js ''1''))) = Inr q' \<and>
     map key_dec (alist q') = [js ''b''] \<and> map_of (dict q') (js ''b'') = None"
  using minus_value_breaks_dict by (auto split: sum.splits)

theorem minus_value_changes_other_key_witness:
  "\<exists>q q'. QueryString (js ''?a=1&b=1'') = Inr q \<and>
     qs_minus (js '''') q (js ''a'') (Some (Str (js ''1''))) = Inr q' \<and>
     qs_values q' (js ''b'') \<noteq> qs_values q (js ''b'')"
  using minus_value_changes_other_key by (auto split: sum.splits)

section \<open>Parsing what \<open>toString\<close> wrote\<close>

lemma matches_None: "re_exec s = None \<Longrightarrow> matches s = []"
  by (subst matches.simps) simp

lemma matches_Some: "re_exec s = Some (g1, g3, rest) \<Longrightarrow> matches s = (g1, g3) # matches rest"
  by (subst matches.simps) simp

lemma parse_loop_None: "re_exec s = None \<Longrightarrow> parse_loop s q = Inr q"
  by (subst parse_loop.simps) simp

lemma parse_loop_Some:
  "re_exec s = Some (g1, g3, rest) \<Longrightarrow>
   parse_loop s q = (case add_match q g1 g3 of Inl e \<Rightarrow> Inl e | Inr q' \<Rightarrow> parse_loop rest q')"
  by (subst parse_loop.simps) simp

lemma parse_loop_matches: "parse_loop s q = add_matches q (matches s)"
proof (induction s q rule: parse_loop.induct)
  case (1 qs this)
  show ?case
  proof (cases "re_exec qs")
    case None
    then show ?thesis
      by (simp add: matches_None parse_loop_None)
  next
    case (Some a)
    obtain g1 g3 rest where a: "a = (g1, g3, rest)" by (cases a) auto
    have e: "re_exec qs = Some (g1, g3, rest)" using Some a by simp
    show ?thesis
    proof (cases "add_match this g1 g3")
      case (Inl e')
      then show ?thesis
        by (simp add: matches_Some [OF e] parse_loop_Some [OF e])
    next
      case (Inr this')
      have "parse_loop rest this' = add_matches this' (matches rest)"
        by (rule "1.IH" [OF e refl refl Inr])
      then show ?thesis
        using Inr by (simp add: matches_Some [OF e] parse_loop_Some [OF e])
    qed
  qed
qed

lemma re_exec_dropWhile: "re_exec s = re_exec (dropWhile cls_sep s)"
  by (simp add: re_exec_def)

lemma re_exec_end:
  assumes "\<not> cls_sep c" and "dropWhile (\<lambda>x. \<not> cls_sep x) r = []"
  shows "re_exec (c # r) = Some (c # takeWhile (\<lambda>x. \<not> cls_sep x) r, None, [])"
proof -
  have "dropWhile cls_sep (c # r) = c # r" using assms(1) by simp
  then show ?thesis
    unfolding re_exec_def Let_def using assms
    by (simp del: dropWhile_eq_Nil_conv)
qed

lemma re_exec_eq:
  assumes "\<not> cls_sep c" and "dropWhile (\<lambda>x. \<not> cls_sep x) r = 61 # r2"
  shows "re_exec (c # r) =
    Some (c # takeWhile (\<lambda>x. \<not> cls_sep x) r, Some (takeWhile (\<lambda>x. x \<noteq> 38) r2),
      dropWhile (\<lambda>x. x \<noteq> 38) r2)"
proof -
  have "dropWhile cls_sep (c # r) = c # r" using assms(1) by simp
  then show ?thesis
    unfolding re_exec_def Let_def using assms
    by (simp del: dropWhile_eq_Cons_conv)
qed

lemma re_exec_amp:
  assumes "\<not> cls_sep c" and "dropWhile (\<lambda>x. \<not> cls_sep x) r = e # r2" and "e \<noteq> 61"
  shows "re_exec (c # r) = Some (c # takeWhile (\<lambda>x. \<not> cls_sep x) r, None, e # r2)"
proof -
  have "dropWhile cls_sep (c # r) = c # r" using assms(1) by simp
  then show ?thesis
    unfolding re_exec_def Let_def using assms
    by (simp del: dropWhile_eq_Cons_conv)
qed

lemma re_exec_ok:
  assumes "re_exec s = Some (g1, g3, rest)"
  shows "match_ok (g1, g3)"
proof -
  obtain c r where cr: "dropWhile cls_sep s = c # r"
    using assms by (cases "dropWhile cls_sep s") (simp_all add: re_exec_def)
  have nsep: "\<not> cls_sep c"
    using cr by (metis hd_dropWhile list.sel(1) list.distinct(1))
  have a: "re_exec (c # r) = Some (g1, g3, rest)"
    using assms re_exec_dropWhile [of s] cr by simp
  have all1: "list_all (\<lambda>c. \<not> cls_sep c) (takeWhile (\<lambda>x. \<not> cls_sep x) r)"
    by (auto simp: list_all_iff dest: set_takeWhileD)
  have all3: "list_all (\<lambda>c. c \<noteq> 38) (takeWhile (\<lambda>x. x \<noteq> 38) r2)" for r2 :: jsstring
    by (auto simp: list_all_iff dest: set_takeWhileD)
  show ?thesis
  proof (cases "dropWhile (\<lambda>x. \<not> cls_sep x) r")
    case Nil
    have "g1 = c # takeWhile (\<lambda>x. \<not> cls_sep x) r \<and> g3 = None"
      using a re_exec_end [OF nsep Nil] by simp
    then show ?thesis
      using nsep all1 by (simp add: match_ok_def)
  next
    case (Cons e r2)
    show ?thesis
    proof (cases "e = 61")
      case True
      have "g1 = c # takeWhile (\<lambda>x. \<not> cls_sep x) r \<and> g3 = Some (takeWhile (\<lambda>x. x \<noteq> 38) r2)"
        using a re_exec_eq [OF nsep, of r r2] Cons True by simp
      then show ?thesis
        using nsep all1 all3 [of r2] by (simp add: match_ok_def)
    next
      case False
      have "g1 = c # takeWhile (\<lambda>x. \<not> cls_sep x) r \<and> g3 = None"
        using a re_exec_amp [OF nsep Cons False] by simp
      then show ?thesis
        using nsep all1 by (simp add: match_ok_def)
    qed
  qed
qed

lemma matches_ok: "list_all match_ok (matches s)"
proof (induction s rule: matches.induct)
  case (1 s)
  show ?case
  proof (cases "re_exec s")
    case None
    then show ?thesis by (simp add: matches_None)
  next
    case (Some a)
    obtain g1 g3 rest where a: "a = (g1, g3, rest)" by (cases a) auto
    have e: "re_exec s = Some (g1, g3, rest)" using Some a by simp
    show ?thesis
      using "1.IH" [OF e refl refl] re_exec_ok [OF e]
      by (simp add: matches_Some [OF e])
  qed
qed

lemma re_exec_skip_amp: "re_exec (38 # s) = re_exec s"
  by (simp add: re_exec_def cls_sep_def)

lemma takeWhile_stop:
  "list_all P xs \<Longrightarrow> ys = [] \<or> \<not> P (hd ys) \<Longrightarrow> takeWhile P (xs @ ys) = xs"
  by (cases ys) (auto simp: list_all_iff)

lemma dropWhile_stop:
  "list_all P xs \<Longrightarrow> ys = [] \<or> \<not> P (hd ys) \<Longrightarrow> dropWhile P (xs @ ys) = ys"
  by (cases ys) (auto simp: list_all_iff)

lemma re_exec_match_text:
  assumes ok: "match_ok m" and R: "R = [] \<or> hd R = 38"
  shows "re_exec (match_text m @ R) = Some (fst m, snd m, R)"
proof -
  obtain g1 g3 where m: "m = (g1, g3)" by (cases m) auto
  obtain c g where g1: "g1 = c # g"
    using ok m by (cases g1) (auto simp: match_ok_def)
  have nsep: "\<not> cls_sep c" and allg: "list_all (\<lambda>c. \<not> cls_sep c) g"
    using ok m g1 by (auto simp: match_ok_def)
  define tail where "tail = (case g3 of None \<Rightarrow> [] | Some v \<Rightarrow> 61 # v) @ R"
  have tail: "tail = [] \<or> \<not> (\<lambda>x. \<not> cls_sep x) (hd tail)"
    using R by (cases g3; cases R) (auto simp: tail_def cls_sep_def)
  have s: "match_text m @ R = c # g @ tail"
    by (simp add: match_text_def m g1 tail_def)
  have tw: "takeWhile (\<lambda>x. \<not> cls_sep x) (g @ tail) = g"
    by (rule takeWhile_stop [OF allg tail])
  have dw: "dropWhile (\<lambda>x. \<not> cls_sep x) (g @ tail) = tail"
    by (rule dropWhile_stop [OF allg tail])
  show ?thesis
  proof (cases g3)
    case None
    then have tR: "tail = R" by (simp add: tail_def)
    show ?thesis
    proof (cases R)
      case Nil
      have "re_exec (c # g @ tail) = Some (c # g, None, [])"
        using re_exec_end [OF nsep, of "g @ tail"] dw tw tR Nil by simp
      then show ?thesis unfolding s by (simp add: m None g1 Nil)
    next
      case (Cons e R')
      have e: "e = 38" using R Cons by simp
      have "re_exec (c # g @ tail) = Some (c # g, None, e # R')"
        using re_exec_amp [OF nsep, of "g @ tail" e R'] dw tw tR Cons e by simp
      then show ?thesis unfolding s by (simp add: m None g1 Cons)
    qed
  next
    case (Some v)
    have allv: "list_all (\<lambda>c. c \<noteq> 38) v"
      using ok m Some by (simp add: match_ok_def)
    have R': "R = [] \<or> \<not> (\<lambda>c. c \<noteq> 38) (hd R)"
      using R by auto
    have tv: "takeWhile (\<lambda>x. x \<noteq> 38) (v @ R) = v" "dropWhile (\<lambda>x. x \<noteq> 38) (v @ R) = R"
      by (rule takeWhile_stop [OF allv R'], rule dropWhile_stop [OF allv R'])
    have tl: "tail = 61 # v @ R" by (simp add: tail_def Some)
    have "re_exec (c # g @ tail) = Some (c # g, Some v, R)"
      using re_exec_eq [OF nsep, of "g @ tail" "v @ R"] dw tw tl tv by simp
    then show ?thesis unfolding s by (simp add: m Some g1)
  qed
qed

lemma matches_amp_texts:
  "list_all match_ok ms \<Longrightarrow> matches (concat (map (\<lambda>m. 38 # match_text m) ms)) = ms"
proof (induction ms)
  case Nil
  then show ?case by (simp add: matches_None re_exec_def)
next
  case (Cons m ms)
  let ?R = "concat (map (\<lambda>m. 38 # match_text m) ms)"
  have R: "?R = [] \<or> hd ?R = 38" by (cases ms) auto
  have ok: "match_ok m" using Cons.prems by simp
  have e: "re_exec (38 # match_text m @ ?R) = Some (fst m, snd m, ?R)"
    by (simp add: re_exec_skip_amp re_exec_match_text [OF ok R])
  show ?case
    using Cons matches_Some [OF e] by simp
qed

lemma matches_join:
  assumes "list_all match_ok ms"
  shows "matches (join_amp (map match_text ms)) = ms"
proof (cases ms)
  case Nil
  then show ?thesis by (simp add: matches_None re_exec_def)
next
  case (Cons m ms')
  let ?R = "concat (map (\<lambda>m. 38 # match_text m) ms')"
  have R: "?R = [] \<or> hd ?R = 38" by (cases ms') auto
  have ok: "match_ok m" "list_all match_ok ms'" using assms Cons by simp_all
  have j: "join_amp (map match_text ms) = match_text m @ ?R"
    by (simp add: Cons join_amp_Cons comp_def del: join_amp.simps)
  show ?thesis
    unfolding j
    using matches_Some [OF re_exec_match_text [OF ok(1) R]] matches_amp_texts [OF ok(2)] Cons
    by simp
qed

lemma add_match_text:
  "add_match q g1 g3 = Inr q' \<Longrightarrow>
   map stored_text (alist q') = map stored_text (alist q) @ [match_text (g1, g3)]"
  by (cases g3) (auto simp: add_match_def Let_def stored_text_def match_text_def split: sum.splits)

lemma add_matches_text:
  "add_matches q ms = Inr q' \<Longrightarrow>
   map stored_text (alist q') = map stored_text (alist q) @ map match_text ms"
proof (induction q ms arbitrary: q' rule: add_matches.induct)
  case (1 this)
  then show ?case by simp
next
  case (2 this g1 g3 ms)
  show ?case
  proof (cases "add_match this g1 g3")
    case (Inl e)
    then show ?thesis using "2.prems" by simp
  next
    case (Inr this')
    have "map stored_text (alist q') = map stored_text (alist this') @ map match_text ms"
      using "2.IH" [OF Inr] "2.prems" Inr by simp
    then show ?thesis
      using add_match_text [OF Inr] by simp
  qed
qed

text \<open>
  The constructor stores \<open>null\<close> as the encoded value of a pair exactly when the value is
  \<open>null\<close>, so that for a parsed object \<open>toString\<close> is the serialisation of the
  specification.
\<close>

lemma add_match_consistent:
  "add_match q g1 g3 = Inr q' \<Longrightarrow>
   list_all (\<lambda>p. (val_enc p = Null) = (val_dec p = Null)) (alist q) \<Longrightarrow>
   list_all (\<lambda>p. (val_enc p = Null) = (val_dec p = Null)) (alist q')"
  by (cases g3) (auto simp: add_match_def Let_def split: sum.splits)

lemma add_matches_consistent:
  "add_matches q ms = Inr q' \<Longrightarrow>
   list_all (\<lambda>p. (val_enc p = Null) = (val_dec p = Null)) (alist q) \<Longrightarrow>
   list_all (\<lambda>p. (val_enc p = Null) = (val_dec p = Null)) (alist q')"
proof (induction q ms arbitrary: q' rule: add_matches.induct)
  case (1 this)
  then show ?case by simp
next
  case (2 this g1 g3 ms)
  show ?case
  proof (cases "add_match this g1 g3")
    case (Inl e)
    then show ?thesis using "2.prems" by simp
  next
    case (Inr this')
    show ?thesis
      using "2.IH" [OF Inr] "2.prems" Inr add_match_consistent [OF Inr] by simp
  qed
qed

lemma parse_toString_spec:
  assumes "QueryString t = Inr q"
  shows "toString q = toString_spec q"
proof -
  have "add_matches \<lparr>dict = [], alist = []\<rparr>
          (matches (if take 1 t = [63] then drop 1 t else t)) = Inr q"
    using assms unfolding QueryString_def Let_def parse_loop_matches by simp
  then have "list_all (\<lambda>p. (val_enc p = Null) = (val_dec p = Null)) (alist q)"
    by (rule add_matches_consistent) simp
  then show ?thesis
    by (rule toString_spec_agrees)
qed

text \<open>
  Claim C7. Whenever parsing a text \<open>t\<close> succeeds with the QueryString \<open>q\<close>, parsing
  \<open>q.toString()\<close> succeeds with the same \<open>q\<close>, and so serialising the re-parsed object
  gives \<open>q.toString()\<close> again. The tokens the constructor reads never contain a stray
  \<open>&\<close>, and a key never contains \<open>=\<close>, so the claim's side condition holds for every
  parsed text.
\<close>

theorem parse_toString_roundtrip:
  assumes "QueryString t = Inr q"
  shows "QueryString (toString q) = Inr q \<and>
         map_sum id toString (QueryString (toString q)) = Inr (toString q)"
proof -
  define t' where "t' = (if take 1 t = [63] then drop 1 t else t)"
  define ms where "ms = matches t'"
  have q: "add_matches \<lparr>dict = [], alist = []\<rparr> ms = Inr q"
    using assms unfolding QueryString_def Let_def parse_loop_matches t'_def ms_def by simp
  have texts: "map stored_text (alist q) = map match_text ms"
    using add_matches_text [OF q] by simp
  have ok: "list_all match_ok ms"
    by (simp add: ms_def matches_ok)
  have empty: "alist q = [] \<longleftrightarrow> ms = []"
    using texts by (metis map_is_Nil_conv)
  have "QueryString (toString q) = Inr q"
  proof (cases "ms = []")
    case True
    then have "toString q = []"
      using empty by (simp add: toString_stored)
    then show ?thesis
      using q True unfolding QueryString_def Let_def parse_loop_matches
      by (simp add: matches_None re_exec_def)
  next
    case False
    then have ts: "toString q = 63 # join_amp (map match_text ms)"
      using empty texts by (simp add: toString_stored)
    show ?thesis
      using q unfolding QueryString_def Let_def parse_loop_matches ts
      by (simp add: matches_join [OF ok])
  qed
  then show ?thesis by simp
qed


theorem parse_toString_roundtrip_witness:
  "\<exists>q. QueryString (js ''??a=b&&c=%zz=d+e&f'') = Inr q \<and>
     toString q = js ''??a=b&c=%zz=d+e&f'' \<and>
     QueryString (toString q) = Inr q \<and>
     map_sum id toString (QueryString (toString q)) = Inr (toString q)"
proof -
  let ?q = "\<lparr>dict = [(js ''?a'', [Str (js ''b'')]), (js ''c'', [Str (js ''%zz=d e'')]),
                    (js ''f'', [Null])],
            alist = [\<lparr>key_enc = js ''?a'', key_dec = js ''?a'',
                       val_enc = Str (js ''b''), val_dec = Str (js ''b'')\<rparr>,
                     \<lparr>key_enc = js ''c'', key_dec = js ''c'',
                       val_enc = Str (js ''%zz=d+e''), val_dec = Str (js ''%zz=d e'')\<rparr>,
                     \<lparr>key_enc = js ''f'', key_dec = js ''f'',
                       val_enc = Null, val_dec = Null\<rparr>]\<rparr>"
  have p: "QueryString (js ''??a=b&&c=%zz=d+e&f'') = Inr ?q"
    by code_simp
  have s: "toString ?q = js ''??a=b&c=%zz=d+e&f''"
    by code_simp
  show ?thesis
    using p s parse_toString_roundtrip [OF p] by blast
qed

section \<open>Scanning with the patterns of \<open>decode\<close> and \<open>encode\<close>\<close>

subsection \<open>Hexadecimal digits\<close>

lemma hexdigit_HEX: "n < 16 \<Longrightarrow> cls_HEX (hexdigit n)"
  by (auto simp: cls_HEX_def hexdigit_def)

lemma cls_HEX_not_pct: "cls_HEX c \<Longrightarrow> c \<noteq> 37"
  by (auto simp: cls_HEX_def)

lemma hexval_hexdigit: "n < 16 \<Longrightarrow> hexval (hexdigit n) = n"
  by (auto simp: hexval_def hexdigit_def)

lemma cls_EF_hexdigit: "n < 16 \<Longrightarrow> cls_EF (hexdigit n) = (14 \<le> n)"
  by (auto simp: cls_EF_def hexdigit_def)

lemma cls_CD_hexdigit: "n < 16 \<Longrightarrow> cls_CD (hexdigit n) = (12 \<le> n \<and> n < 14)"
  by (auto simp: cls_CD_def hexdigit_def)

lemma cls_89AB_hexdigit: "n < 16 \<Longrightarrow> cls_89AB (hexdigit n) = (8 \<le> n \<and> n < 12)"
  by (auto simp: cls_89AB_def hexdigit_def)

lemma cls_07_hexdigit: "n < 16 \<Longrightarrow> cls_07 (hexdigit n) = (n < 8)"
  by (auto simp: cls_07_def hexdigit_def)

lemma parseInt16_pct:
  "b < 256 \<Longrightarrow> parseInt16 (hexdigit (b div 16)) (hexdigit (b mod 16)) = b"
  by (simp add: parseInt16_def hexval_hexdigit)

lemma cls_sub_HEX:
  "cls_EF c \<Longrightarrow> cls_HEX c" "cls_CD c \<Longrightarrow> cls_HEX c" "cls_89AB c \<Longrightarrow> cls_HEX c"
  "cls_07 c \<Longrightarrow> cls_HEX c"
  by (auto simp: cls_HEX_def cls_EF_def cls_CD_def cls_89AB_def cls_07_def)

subsection \<open>The shape of a match\<close>

lemma re_esc3_iff:
  "re_esc3 w \<longleftrightarrow>
     (\<exists>a1 b1 a2 b2 a3 b3. w = [37, a1, b1, 37, a2, b2, 37, a3, b3] \<and> cls_EF a1 \<and> cls_HEX b1 \<and>
        cls_89AB a2 \<and> cls_HEX b2 \<and> cls_89AB a3 \<and> cls_HEX b3)"
  by (cases w rule: re_esc3.cases) auto

lemma re_esc2_iff:
  "re_esc2 w \<longleftrightarrow>
     (\<exists>a1 b1 a2 b2. w = [37, a1, b1, 37, a2, b2] \<and> cls_CD a1 \<and> cls_HEX b1 \<and>
        cls_89AB a2 \<and> cls_HEX b2)"
  by (cases w rule: re_esc2.cases) auto

lemma re_esc1_iff:
  "re_esc1 w \<longleftrightarrow> (\<exists>a1 b1. w = [37, a1, b1] \<and> cls_07 a1 \<and> cls_HEX b1)"
  by (cases w rule: re_esc1.cases) auto

subsection \<open>Scanning\<close>

lemma gsub_skip: "\<not> m (take n (x # xs)) \<Longrightarrow> gsub n m f (x # xs) = x # gsub n m f xs"
  by (simp add: gsub.simps(2))

lemma gsub_hit:
  assumes "m t" and "length t = n" and "0 < n"
  shows "gsub n m f (t @ r) = f t @ gsub n m f r"
proof -
  obtain x xs where t: "t = x # xs" using assms by (cases t) auto
  have n: "n = Suc (length xs)" using assms t by simp
  have "take n (x # xs @ r) = t" by (simp add: n t)
  moreover have "drop (n - 1) (xs @ r) = r" by (simp add: n)
  ultimately show ?thesis
    using assms by (simp add: t gsub.simps(2))
qed

lemma gsub_append:
  assumes wid: "\<And>w. m w \<Longrightarrow> length w = n" and n: "0 < n"
    and safe: "\<And>a. a \<noteq> [] \<Longrightarrow> length a < n \<Longrightarrow> \<not> m (take n (a @ r))"
  shows "gsub n m f (a @ r) = gsub n m f a @ gsub n m f r"
  using assms
proof (induction n m f a rule: gsub.induct)
  case (1 n m f)
  then show ?case by simp
next
  case (2 n m f x xs)
  note wid = "2.prems"(1) and n = "2.prems"(2) and safe = "2.prems"(3)
  show ?case
  proof (cases "length (x # xs) < n")
    case True
    have a: "\<not> m (take n (x # xs))"
      using wid [of "take n (x # xs)"] True by auto
    have b: "\<not> m (take n ((x # xs) @ r))"
      using safe [of "x # xs"] True by simp
    have "gsub n m f (xs @ r) = gsub n m f xs @ gsub n m f r"
      using "2.IH"(2) [OF a wid n safe] by simp
    then show ?thesis
      using a b by (simp add: gsub.simps(2))
  next
    case False
    then have len: "n \<le> Suc (length xs)" by simp
    have "take n ((x # xs) @ r) = take n (x # xs)"
      unfolding take_append using len by simp
    then have w: "take n (x # xs @ r) = take n (x # xs)"
      by simp
    show ?thesis
    proof (cases "m (take n (x # xs))")
      case True
      have d: "drop (n - 1) (xs @ r) = drop (n - 1) xs @ r"
        unfolding drop_append using len by simp
      have "gsub n m f (drop (n - 1) xs @ r) = gsub n m f (drop (n - 1) xs) @ gsub n m f r"
        using "2.IH"(1) [OF True wid n safe] by simp
      then show ?thesis
        using True w d by (simp add: gsub.simps(2))
    next
      case False
      have "gsub n m f (xs @ r) = gsub n m f xs @ gsub n m f r"
        using "2.IH"(2) [OF False wid n safe] by simp
      then show ?thesis
        using False w by (simp add: gsub.simps(2))
    qed
  qed
qed

section \<open>Three escapes in \<open>decode\<close>\<close>

lemma window_at_boundary:
  assumes "length a < n"
  shows "length (take n (a @ c # r)) > length a \<and> take n (a @ c # r) ! length a = c"
  using assms by (simp add: nth_append)

lemma window_after_boundary:
  assumes "Suc (length a) < n"
  shows "take n (a @ c # e # r) ! Suc (length a) = e"
  using assms by (simp add: nth_append)

lemma safe_pct:
  assumes wid: "\<And>w. m w \<Longrightarrow> length w = n"
    and inner: "\<And>w k. m w \<Longrightarrow> 0 < k \<Longrightarrow> k < length w \<Longrightarrow> w ! k = 37 \<Longrightarrow>
                  Suc k < length w \<and> cls_89AB (w ! Suc k)"
    and e: "\<not> cls_89AB e" and a: "a \<noteq> []" "length a < n"
  shows "\<not> m (take n (a @ 37 # e # r))"
proof
  let ?w = "take n (a @ 37 # e # r)"
  assume m: "m ?w"
  have len: "length ?w = n" by (rule wid [OF m])
  have k: "0 < length a" "length a < length ?w" unfolding len using a by simp_all
  have "?w ! length a = 37" using window_at_boundary [OF a(2)] by blast
  from inner [OF m k this] have s': "Suc (length a) < length ?w"
    and c: "cls_89AB (?w ! Suc (length a))"
    by blast+
  have s: "Suc (length a) < n" using s' unfolding len .
  have "?w ! Suc (length a) = e" by (rule window_after_boundary [OF s])
  then show False using c e by (simp only:)
qed

lemma safe_lit:
  assumes wid: "\<And>w. m w \<Longrightarrow> length w = n"
    and alpha: "\<And>w c. m w \<Longrightarrow> c \<in> set w \<Longrightarrow> c = 37 \<or> cls_HEX c"
    and c: "c \<noteq> 37" "\<not> cls_HEX c" and a: "length a < n"
  shows "\<not> m (take n (a @ c # r))"
proof
  let ?w = "take n (a @ c # r)"
  assume m: "m ?w"
  have "length a < length ?w" "?w ! length a = c"
    using window_at_boundary [OF a] by blast+
  then have "c \<in> set ?w" by (metis nth_mem)
  then show False using alpha [OF m] c by blast
qed

lemma safe_end:
  assumes wid: "\<And>w. m w \<Longrightarrow> length w = n" and a: "length a < n"
  shows "\<not> m (take n (a @ []))"
  using wid [of "take n (a @ [])"] a by auto

lemma re_esc3_wid: "re_esc3 w \<Longrightarrow> length w = 9"
  by (auto simp: re_esc3_iff)

lemma re_esc2_wid: "re_esc2 w \<Longrightarrow> length w = 6"
  by (auto simp: re_esc2_iff)

lemma re_esc1_wid: "re_esc1 w \<Longrightarrow> length w = 3"
  by (auto simp: re_esc1_iff)

lemma re_esc3_alpha: "re_esc3 w \<Longrightarrow> c \<in> set w \<Longrightarrow> c = 37 \<or> cls_HEX c"
  by (auto simp: re_esc3_iff dest: cls_sub_HEX)

lemma re_esc2_alpha: "re_esc2 w \<Longrightarrow> c \<in> set w \<Longrightarrow> c = 37 \<or> cls_HEX c"
  by (auto simp: re_esc2_iff dest: cls_sub_HEX)

lemma re_esc1_alpha: "re_esc1 w \<Longrightarrow> c \<in> set w \<Longrightarrow> c = 37 \<or> cls_HEX c"
  by (auto simp: re_esc1_iff dest: cls_sub_HEX)

lemma re_esc3_inner:
  assumes "re_esc3 w" "0 < k" "k < length w" "w ! k = 37"
  shows "Suc k < length w \<and> cls_89AB (w ! Suc k)"
proof -
  obtain a1 b1 a2 b2 a3 b3 where w: "w = [37, a1, b1, 37, a2, b2, 37, a3, b3]"
    and c: "cls_EF a1" "cls_HEX b1" "cls_89AB a2" "cls_HEX b2" "cls_89AB a3" "cls_HEX b3"
    using assms(1) by (auto simp: re_esc3_iff)
  have ne: "a1 \<noteq> 37" "b1 \<noteq> 37" "a2 \<noteq> 37" "b2 \<noteq> 37" "a3 \<noteq> 37" "b3 \<noteq> 37"
    using c by (auto dest: cls_sub_HEX cls_HEX_not_pct)
  have "k = 1 \<or> k = 2 \<or> k = 3 \<or> k = 4 \<or> k = 5 \<or> k = 6 \<or> k = 7 \<or> k = 8"
    using assms(2,3) w by (simp; arith)
  then show ?thesis
    using assms(4) ne c(3,5) by (auto simp: w)
qed

lemma re_esc2_inner:
  assumes "re_esc2 w" "0 < k" "k < length w" "w ! k = 37"
  shows "Suc k < length w \<and> cls_89AB (w ! Suc k)"
proof -
  obtain a1 b1 a2 b2 where w: "w = [37, a1, b1, 37, a2, b2]"
    and c: "cls_CD a1" "cls_HEX b1" "cls_89AB a2" "cls_HEX b2"
    using assms(1) by (auto simp: re_esc2_iff)
  have ne: "a1 \<noteq> 37" "b1 \<noteq> 37" "a2 \<noteq> 37" "b2 \<noteq> 37"
    using c by (auto dest: cls_sub_HEX cls_HEX_not_pct)
  have "k = 1 \<or> k = 2 \<or> k = 3 \<or> k = 4 \<or> k = 5"
    using assms(2,3) w by (simp; arith)
  then show ?thesis
    using assms(4) ne c(3) by (auto simp: w)
qed

lemma re_esc1_inner:
  assumes "re_esc1 w" "0 < k" "k < length w" "w ! k = 37"
  shows "Suc k < length w \<and> cls_89AB (w ! Suc k)"
proof -
  obtain a1 b1 where w: "w = [37, a1, b1]" and c: "cls_07 a1" "cls_HEX b1"
    using assms(1) by (auto simp: re_esc1_iff)
  have ne: "a1 \<noteq> 37" "b1 \<noteq> 37"
    using c by (auto dest: cls_sub_HEX cls_HEX_not_pct)
  have "k = 1 \<or> k = 2"
    using assms(2,3) w by (simp; arith)
  then show ?thesis
    using assms(4) ne by (auto simp: w)
qed


lemma gsub_skip_lit:
  assumes starts: "\<And>w. m w \<Longrightarrow> \<exists>y w'. w = 37 # y # w' \<and> C y" and x: "x \<noteq> 37"
  shows "gsub n m f (x # xs) = x # gsub n m f xs"
proof (rule gsub_skip)
  show "\<not> m (take n (x # xs))"
  proof
    assume "m (take n (x # xs))"
    from starts [OF this] obtain y w' where "take n (x # xs) = 37 # y # w'" by blast
    then show False using x by (cases n) auto
  qed
qed

lemma gsub_skip_pct:
  assumes starts: "\<And>w. m w \<Longrightarrow> \<exists>y w'. w = 37 # y # w' \<and> C y"
    and C: "\<not> C (hexdigit (b div 16))" and b: "b < 256"
  shows "gsub n m f (pct b @ r) = pct b @ gsub n m f r"
proof -
  let ?h = "hexdigit (b div 16)" and ?l = "hexdigit (b mod 16)"
  have h: "?h \<noteq> 37" and l: "?l \<noteq> 37"
    using b by (auto intro!: cls_HEX_not_pct hexdigit_HEX)
  have "\<not> m (take n (37 # ?h # ?l # r))"
  proof
    assume "m (take n (37 # ?h # ?l # r))"
    from starts [OF this] obtain y w' where w: "take n (37 # ?h # ?l # r) = 37 # y # w'" and "C y"
      by blast
    have "y = ?h" using w by (cases n; cases "n - 1") auto
    then show False using C \<open>C y\<close> by simp
  qed
  then have "gsub n m f (37 # ?h # ?l # r) = 37 # gsub n m f (?h # ?l # r)"
    by (rule gsub_skip)
  then show ?thesis
    by (simp add: pct_def gsub_skip_lit [of m C, OF starts h] gsub_skip_lit [of m C, OF starts l])
qed

lemma re_esc3_starts: "re_esc3 w \<Longrightarrow> \<exists>y w'. w = 37 # y # w' \<and> cls_EF y"
  by (auto simp: re_esc3_iff)

lemma re_esc2_starts: "re_esc2 w \<Longrightarrow> \<exists>y w'. w = 37 # y # w' \<and> cls_CD y"
  by (auto simp: re_esc2_iff)

lemma re_esc1_starts: "re_esc1 w \<Longrightarrow> \<exists>y w'. w = 37 # y # w' \<and> cls_07 y"
  by (auto simp: re_esc1_iff)

lemma re_pct20_starts: "re_pct20 w \<Longrightarrow> \<exists>y w'. w = 37 # y # w' \<and> y = 50"
  by (auto simp: re_pct20_def)

lemma gsub_plus_append:
  "gsub 1 re_plus f (a @ r) = gsub 1 re_plus f a @ gsub 1 re_plus f r"
  by (rule gsub_append) (auto simp: re_plus_def)

lemma gsub_plus_keep:
  "list_all (\<lambda>c. c \<noteq> 43) s \<Longrightarrow> gsub 1 re_plus f s = s"
  by (induction s) (simp_all add: gsub_skip re_plus_def)

text \<open>
  A pass leaves alone a decoded code unit outside ASCII and three escapes none of which
  can start a match of the pass, whatever stands before and behind them.
\<close>

lemma gsub_keeps_middle:
  assumes wid: "\<And>w. m w \<Longrightarrow> length w = n" and n: "0 < n"
    and inner: "\<And>w k. m w \<Longrightarrow> 0 < k \<Longrightarrow> k < length w \<Longrightarrow> w ! k = 37 \<Longrightarrow>
                  Suc k < length w \<and> cls_89AB (w ! Suc k)"
    and alpha: "\<And>w c. m w \<Longrightarrow> c \<in> set w \<Longrightarrow> c = 37 \<or> cls_HEX c"
    and starts: "\<And>w. m w \<Longrightarrow> \<exists>y w'. w = 37 # y # w' \<and> C y"
    and R: "(R = [c] \<and> c \<noteq> 37 \<and> \<not> cls_HEX c) \<or>
            (R = pct B1 @ pct B2 @ pct B3 \<and> B1 < 256 \<and> B2 < 256 \<and> B3 < 256 \<and>
             \<not> C (hexdigit (B1 div 16)) \<and> \<not> C (hexdigit (B2 div 16)) \<and>
             \<not> C (hexdigit (B3 div 16)) \<and> \<not> cls_89AB (hexdigit (B1 div 16)))"
  shows "gsub n m f (A @ R @ B) = gsub n m f A @ R @ gsub n m f B"
proof -
  from R show ?thesis
  proof
    assume r: "R = [c] \<and> c \<noteq> 37 \<and> \<not> cls_HEX c"
    have "gsub n m f (A @ c # B) = gsub n m f A @ gsub n m f (c # B)"
      using r by (intro gsub_append wid n safe_lit [of m n, OF wid alpha]) auto
    moreover have "gsub n m f (c # B) = c # gsub n m f B"
      using r by (intro gsub_skip_lit [of m C, OF starts]) auto
    ultimately show ?thesis using r by simp
  next
    assume r: "R = pct B1 @ pct B2 @ pct B3 \<and> B1 < 256 \<and> B2 < 256 \<and> B3 < 256 \<and>
             \<not> C (hexdigit (B1 div 16)) \<and> \<not> C (hexdigit (B2 div 16)) \<and>
             \<not> C (hexdigit (B3 div 16)) \<and> \<not> cls_89AB (hexdigit (B1 div 16))"
    let ?h = "hexdigit (B1 div 16)"
    let ?tl = "hexdigit (B1 mod 16) # pct B2 @ pct B3 @ B"
    have R': "R @ B = 37 # ?h # ?tl"
      using r by (simp add: pct_def)
    have "gsub n m f (A @ 37 # ?h # ?tl) = gsub n m f A @ gsub n m f (37 # ?h # ?tl)"
      using r by (intro gsub_append wid n safe_pct [of m n, OF wid inner]) auto
    moreover have "gsub n m f (pct B1 @ pct B2 @ pct B3 @ B) = pct B1 @ pct B2 @ pct B3 @ gsub n m f B"
      using r by (simp add: gsub_skip_pct [of m C, OF starts])
    ultimately show ?thesis using r R' by (simp add: pct_def)
  qed
qed


lemma pct_HEX: "b < 256 \<Longrightarrow> list_all (\<lambda>c. c = 37 \<or> cls_HEX c) (pct b)"
  by (simp add: pct_def hexdigit_HEX)

lemma pct_no_plus: "b < 256 \<Longrightarrow> list_all (\<lambda>c. c \<noteq> 43) (pct b)"
  by (auto simp: pct_def hexdigit_def)

lemma decode3_pct:
  assumes "0xE0 \<le> B1" "B1 \<le> 0xFF" "0x80 \<le> B2" "B2 \<le> 0xBF" "0x80 \<le> B3" "B3 \<le> 0xBF"
  shows "re_esc3 (pct B1 @ pct B2 @ pct B3)"
    and "decode3 (pct B1 @ pct B2 @ pct B3) =
      (if (B1 - 0xE0 = 0 \<and> B2 - 0x80 < 32) \<or> 0xFFFF < utf8_pack3 B1 B2 B3
       then pct B1 @ pct B2 @ pct B3 else [utf8_pack3 B1 B2 B3])"
proof -
  have d: "B1 div 16 < 16" "14 \<le> B1 div 16" "B2 div 16 < 16" "8 \<le> B2 div 16" "B2 div 16 < 12"
    "B3 div 16 < 16" "8 \<le> B3 div 16" "B3 div 16 < 12"
    using assms by simp_all
  have b: "B1 < 256" "B2 < 256" "B3 < 256" using assms by simp_all
  show "re_esc3 (pct B1 @ pct B2 @ pct B3)"
    using d by (simp add: pct_def hexdigit_HEX cls_EF_hexdigit cls_89AB_hexdigit)
  show "decode3 (pct B1 @ pct B2 @ pct B3) =
      (if (B1 - 0xE0 = 0 \<and> B2 - 0x80 < 32) \<or> 0xFFFF < utf8_pack3 B1 B2 B3
       then pct B1 @ pct B2 @ pct B3 else [utf8_pack3 B1 B2 B3])"
    using b by (simp add: pct_def parseInt16_pct Let_def push_bit_eq_mult utf8_pack3_def
        fromCharCode_def)
qed

text \<open>
  Claim C8. Three consecutive escapes \<open>%XX\<close> (upper-case hexadecimal digits, as the
  patterns of \<open>decode\<close> require) whose octets are in E0..FF, 80..BF and 80..BF, standing
  anywhere in the input, are replaced by the one code unit packed from them, and are left
  as they are when the encoding is overlong (lead octet E0 and a second octet below A0) or
  the packed value exceeds \<open>0xFFFF\<close>; the text before and the text behind them is
  decoded as it would be alone.
\<close>

theorem decode_three_escapes:
  assumes B1: "0xE0 \<le> B1" "B1 \<le> 0xFF" and B2: "0x80 \<le> B2" "B2 \<le> 0xBF"
    and B3: "0x80 \<le> B3" "B3 \<le> 0xBF"
  shows "decode (a @ pct B1 @ pct B2 @ pct B3 @ b) =
         decode a @
         (if (B1 - 0xE0 = 0 \<and> B2 - 0x80 < 32) \<or> 0xFFFF < utf8_pack3 B1 B2 B3
          then pct B1 @ pct B2 @ pct B3 else [utf8_pack3 B1 B2 B3]) @
         decode b"
proof -
  let ?t = "pct B1 @ pct B2 @ pct B3"
  define R where "R = decode3 ?t"
  have b: "B1 < 256" "B2 < 256" "B3 < 256" using B1 B2 B3 by simp_all
  have d: "B1 div 16 < 16" "14 \<le> B1 div 16" "B2 div 16 < 16" "8 \<le> B2 div 16" "B2 div 16 < 12"
    "B3 div 16 < 16" "8 \<le> B3 div 16" "B3 div 16 < 12"
    using B1 B2 B3 by simp_all
  have m3: "re_esc3 ?t"
    using decode3_pct(1) [of B1 B2 B3] B1 B2 B3 by simp
  have R_eq: "R = (if (B1 - 0xE0 = 0 \<and> B2 - 0x80 < 32) \<or> 0xFFFF < utf8_pack3 B1 B2 B3
                   then ?t else [utf8_pack3 B1 B2 B3])"
    unfolding R_def using decode3_pct(2) [of B1 B2 B3] B1 B2 B3 by simp
  have big: "\<not> ((B1 - 0xE0 = 0 \<and> B2 - 0x80 < 32) \<or> 0xFFFF < utf8_pack3 B1 B2 B3) \<Longrightarrow>
             2048 \<le> utf8_pack3 B1 B2 B3"
    using B1 B2 by (auto simp: utf8_pack3_def)
  have R2: "(R = [utf8_pack3 B1 B2 B3] \<and> utf8_pack3 B1 B2 B3 \<noteq> 37 \<and> \<not> cls_HEX (utf8_pack3 B1 B2 B3)) \<or>
            (R = pct B1 @ pct B2 @ pct B3 \<and> B1 < 256 \<and> B2 < 256 \<and> B3 < 256 \<and>
             \<not> cls_CD (hexdigit (B1 div 16)) \<and> \<not> cls_CD (hexdigit (B2 div 16)) \<and>
             \<not> cls_CD (hexdigit (B3 div 16)) \<and> \<not> cls_89AB (hexdigit (B1 div 16)))"
    using big b d unfolding R_eq
    by (auto simp: cls_CD_hexdigit cls_89AB_hexdigit cls_HEX_def)
  have R1: "(R = [utf8_pack3 B1 B2 B3] \<and> utf8_pack3 B1 B2 B3 \<noteq> 37 \<and> \<not> cls_HEX (utf8_pack3 B1 B2 B3)) \<or>
            (R = pct B1 @ pct B2 @ pct B3 \<and> B1 < 256 \<and> B2 < 256 \<and> B3 < 256 \<and>
             \<not> cls_07 (hexdigit (B1 div 16)) \<and> \<not> cls_07 (hexdigit (B2 div 16)) \<and>
             \<not> cls_07 (hexdigit (B3 div 16)) \<and> \<not> cls_89AB (hexdigit (B1 div 16)))"
    using big b d unfolding R_eq
    by (auto simp: cls_07_hexdigit cls_89AB_hexdigit cls_HEX_def)
  let ?P1 = "gsub 1 re_plus (\<lambda>_. [32])"
  let ?P3 = "gsub 9 re_esc3 decode3"
  let ?P2 = "gsub 6 re_esc2 decode2"
  let ?P1e = "gsub 3 re_esc1 decode1"
  have t_np: "list_all (\<lambda>c. c \<noteq> 43) ?t"
    using pct_no_plus [OF b(1)] pct_no_plus [OF b(2)] pct_no_plus [OF b(3)]
    by simp
  have s1: "?P1 (a @ ?t @ b) = ?P1 a @ ?t @ ?P1 b"
    by (simp only: gsub_plus_append gsub_plus_keep [OF pct_no_plus [OF b(1)]]
        gsub_plus_keep [OF pct_no_plus [OF b(2)]] gsub_plus_keep [OF pct_no_plus [OF b(3)]]
        append_assoc)
  have tb: "?t @ ?P1 b = 37 # hexdigit (B1 div 16) # (hexdigit (B1 mod 16) # pct B2 @ pct B3 @ ?P1 b)"
    by (simp add: pct_def)
  have ne: "\<not> cls_89AB (hexdigit (B1 div 16))"
    using d by (simp add: cls_89AB_hexdigit)
  have "?P3 (?P1 a @ ?t @ ?P1 b) = ?P3 (?P1 a) @ ?P3 (?t @ ?P1 b)"
    unfolding tb
    by (intro gsub_append re_esc3_wid safe_pct [of re_esc3 9, OF re_esc3_wid re_esc3_inner] ne)
      auto
  moreover have "?P3 (?t @ ?P1 b) = R @ ?P3 (?P1 b)"
    unfolding R_def using m3 by (intro gsub_hit) (auto dest: re_esc3_wid)
  ultimately have s2: "?P3 (?P1 a @ ?t @ ?P1 b) = ?P3 (?P1 a) @ R @ ?P3 (?P1 b)"
    by simp
  have s3: "?P2 (?P3 (?P1 a) @ R @ ?P3 (?P1 b)) = ?P2 (?P3 (?P1 a)) @ R @ ?P2 (?P3 (?P1 b))"
    by (rule gsub_keeps_middle [of re_esc2 6 cls_CD, OF re_esc2_wid _ re_esc2_inner re_esc2_alpha
          re_esc2_starts R2]) auto
  have s4: "?P1e (?P2 (?P3 (?P1 a)) @ R @ ?P2 (?P3 (?P1 b))) =
            ?P1e (?P2 (?P3 (?P1 a))) @ R @ ?P1e (?P2 (?P3 (?P1 b)))"
    by (rule gsub_keeps_middle [of re_esc1 3 cls_07, OF re_esc1_wid _ re_esc1_inner re_esc1_alpha
          re_esc1_starts R1]) auto
  have "decode (a @ ?t @ b) = decode a @ R @ decode b"
    unfolding decode_def Let_def s1 s2 s3 s4 ..
  then show ?thesis
    unfolding R_eq by simp
qed

lemmas decode_eval = decode_def Let_def gsub.simps js_def re_plus_def cls_HEX_def cls_EF_def
  cls_CD_def cls_89AB_def cls_07_def parseInt16_def hexval_def fromCharCode_def push_bit_eq_mult

theorem decode_three_escapes_witness:
  "(0xE0::nat) \<le> 0xE2 \<and> (0xE2::nat) \<le> 0xFF \<and> (0x80::nat) \<le> 0x84 \<and> (0x84::nat) \<le> 0xBF \<and>
   (0x80::nat) \<le> 0xA0 \<and> (0xA0::nat) \<le> 0xBF \<and>
   pct 0xE2 @ pct 0x84 @ pct 0xA0 = js ''%E2%84%A0'' \<and>
   decode (js ''a+'' @ pct 0xE2 @ pct 0x84 @ pct 0xA0 @ js ''%41'') =
     decode (js ''a+'') @ [0x2120] @ decode (js ''%41'')"
proof -
  have p: "pct 0xE2 @ pct 0x84 @ pct 0xA0 = js ''%E2%84%A0''"
    by (simp add: pct_def hexdigit_def js_def)
  have "decode (js ''a+'' @ pct 0xE2 @ pct 0x84 @ pct 0xA0 @ js ''%41'') =
     decode (js ''a+'') @ [0x2120] @ decode (js ''%41'')"
    using decode_three_escapes [of "0xE2" "0x84" "0xA0" "js ''a+''" "js ''%41''"]
    by (simp add: utf8_pack3_def)
  then show ?thesis
    using p by simp
qed

text \<open>
  The accepted and the rejected cases on concrete inputs; an escape written with
  lower-case digits is not matched by any pattern of \<open>decode\<close>.
\<close>

lemma decode_examples:
  "decode (js ''a+%E2%84%A0%41'') = js ''a '' @ [0x2120] @ js ''A''"
  "decode (js ''%E0%9F%BF'') = js ''%E0%9F%BF''"
  "decode (js ''%F0%90%80'') = js ''%F0%90%80''"
  "decode (js ''%e2%84%a0'') = js ''%e2%84%a0''"
  by (simp_all add: decode_eval)

subsection \<open>Escapes with a lower-case digit\<close>

lemma gsub_skip_esc:
  assumes starts: "\<And>w. m w \<Longrightarrow> \<exists>y w'. w = 37 # y # w' \<and> C y" and x: "\<not> C x"
  shows "gsub n m f (37 # x # r) = 37 # gsub n m f (x # r)"
proof (rule gsub_skip)
  show "\<not> m (take n (37 # x # r))"
  proof
    assume "m (take n (37 # x # r))"
    from starts [OF this] obtain y w' where w: "take n (37 # x # r) = 37 # y # w'" and "C y"
      by blast
    have "y = x" using w by (cases n; cases "n - 1") auto
    then show False using x \<open>C y\<close> by simp
  qed
qed

lemma gsub_keeps_escapes:
  assumes wid: "\<And>w. m w \<Longrightarrow> length w = n" and n: "0 < n"
    and inner: "\<And>w k. m w \<Longrightarrow> 0 < k \<Longrightarrow> k < length w \<Longrightarrow> w ! k = 37 \<Longrightarrow>
                  Suc k < length w \<and> cls_89AB (w ! Suc k)"
    and starts: "\<And>w. m w \<Longrightarrow> \<exists>y w'. w = 37 # y # w' \<and> C y"
    and ne: "x1 \<noteq> 37" "y1 \<noteq> 37" "x2 \<noteq> 37" "y2 \<noteq> 37" "x3 \<noteq> 37" "y3 \<noteq> 37"
    and nb: "\<not> cls_89AB x1"
    and first: "\<not> m (take n (37 # x1 # y1 # 37 # x2 # y2 # 37 # x3 # y3 # B))"
    and c2: "\<not> C x2" and c3: "\<not> C x3"
  shows "gsub n m f (A @ [37, x1, y1, 37, x2, y2, 37, x3, y3] @ B) =
         gsub n m f A @ [37, x1, y1, 37, x2, y2, 37, x3, y3] @ gsub n m f B"
proof -
  let ?tl = "y1 # 37 # x2 # y2 # 37 # x3 # y3 # B"
  have a: "gsub n m f (A @ 37 # x1 # ?tl) = gsub n m f A @ gsub n m f (37 # x1 # ?tl)"
    by (intro gsub_append wid n safe_pct [of m n, OF wid inner nb]) auto
  have s0: "gsub n m f (37 # x1 # ?tl) = 37 # gsub n m f (x1 # ?tl)"
    using first by (rule gsub_skip)
  have lit: "gsub n m f (x # r) = x # gsub n m f r" if "x \<noteq> 37" for x r
    using that by (intro gsub_skip_lit [of m C, OF starts]) auto
  have esc: "gsub n m f (37 # x # r) = 37 # gsub n m f (x # r)" if "\<not> C x" for x r
    using that by (intro gsub_skip_esc [of m C, OF starts]) auto
  have "gsub n m f (37 # x1 # ?tl) = [37, x1, y1, 37, x2, y2, 37, x3, y3] @ gsub n m f B"
    unfolding s0 by (simp add: lit ne esc c2 c3)
  then show ?thesis
    using a by simp
qed

text \<open>The hexadecimal digits of an escape whose octet is in a range.\<close>

lemma lead_digit:
  assumes "ParseHexOctet a b = Some B" "0xE0 \<le> B" "B \<le> 0xFF"
  shows "a = 69 \<or> a = 70 \<or> a = 101 \<or> a = 102" and "is_hexdigit b"
  using assms
  by (auto simp: ParseHexOctet_def is_hexdigit_def hexdigit_val_def split: if_splits)

lemma cont_digit:
  assumes "ParseHexOctet a b = Some B" "0x80 \<le> B" "B \<le> 0xBF"
  shows "a = 56 \<or> a = 57 \<or> a = 65 \<or> a = 66 \<or> a = 97 \<or> a = 98" and "is_hexdigit b"
  using assms
  by (auto simp: ParseHexOctet_def is_hexdigit_def hexdigit_val_def split: if_splits)


lemma is_hexdigit_ne: "is_hexdigit c \<Longrightarrow> c \<noteq> 37 \<and> c \<noteq> 43"
  by (auto simp: is_hexdigit_def)

text \<open>
  Three escapes with octets in the ranges of the three-escape pattern, of which a digit is
  not an upper-case hexadecimal digit, are left as they are by every pass of \<open>decode\<close>,
  whatever stands before and behind them.
\<close>

lemma lower_case_escapes_unchanged:
  assumes p: "ParseHexOctet a1 b1 = Some B1" "ParseHexOctet a2 b2 = Some B2"
      "ParseHexOctet a3 b3 = Some B3"
    and r1: "0xE0 \<le> B1" "B1 \<le> 0xFF" and r2: "0x80 \<le> B2" "B2 \<le> 0xBF"
    and r3: "0x80 \<le> B3" "B3 \<le> 0xBF"
    and low: "\<not> (cls_HEX a1 \<and> cls_HEX b1 \<and> cls_HEX a2 \<and> cls_HEX b2 \<and> cls_HEX a3 \<and> cls_HEX b3)"
  shows "decode (a @ [37, a1, b1, 37, a2, b2, 37, a3, b3] @ b) =
         decode a @ [37, a1, b1, 37, a2, b2, 37, a3, b3] @ decode b"
proof -
  let ?t = "[37, a1, b1, 37, a2, b2, 37, a3, b3]"
  have A1: "a1 = 69 \<or> a1 = 70 \<or> a1 = 101 \<or> a1 = 102" and h1: "is_hexdigit b1"
    using lead_digit [OF p(1) r1] by blast+
  have A2: "a2 = 56 \<or> a2 = 57 \<or> a2 = 65 \<or> a2 = 66 \<or> a2 = 97 \<or> a2 = 98" and h2: "is_hexdigit b2"
    using cont_digit [OF p(2) r2] by blast+
  have A3: "a3 = 56 \<or> a3 = 57 \<or> a3 = 65 \<or> a3 = 66 \<or> a3 = 97 \<or> a3 = 98" and h3: "is_hexdigit b3"
    using cont_digit [OF p(3) r3] by blast+
  have ne: "a1 \<noteq> 37" "b1 \<noteq> 37" "a2 \<noteq> 37" "b2 \<noteq> 37" "a3 \<noteq> 37" "b3 \<noteq> 37"
    using A1 A2 A3 is_hexdigit_ne [OF h1] is_hexdigit_ne [OF h2] is_hexdigit_ne [OF h3] by auto
  have np: "a1 \<noteq> 43" "b1 \<noteq> 43" "a2 \<noteq> 43" "b2 \<noteq> 43" "a3 \<noteq> 43" "b3 \<noteq> 43"
    using A1 A2 A3 is_hexdigit_ne [OF h1] is_hexdigit_ne [OF h2] is_hexdigit_ne [OF h3] by auto
  have nb: "\<not> cls_89AB a1"
    using A1 by (auto simp: cls_89AB_def)
  have e1: "\<not> cls_CD a1" "\<not> cls_07 a1"
    using A1 by (auto simp: cls_CD_def cls_07_def)
  have e2: "\<not> cls_EF a2" "\<not> cls_CD a2" "\<not> cls_07 a2"
    using A2 by (auto simp: cls_EF_def cls_CD_def cls_07_def)
  have e3: "\<not> cls_EF a3" "\<not> cls_CD a3" "\<not> cls_07 a3"
    using A3 by (auto simp: cls_EF_def cls_CD_def cls_07_def)
  have f3: "\<not> re_esc3 (take 9 (37 # a1 # b1 # 37 # a2 # b2 # 37 # a3 # b3 # B))" for B
    using low by (auto dest: cls_sub_HEX)
  have f2: "\<not> re_esc2 (take 6 (37 # a1 # b1 # 37 # a2 # b2 # 37 # a3 # b3 # B))" for B
    using e1 by simp
  have f1: "\<not> re_esc1 (take 3 (37 # a1 # b1 # 37 # a2 # b2 # 37 # a3 # b3 # B))" for B
    using e1 by simp
  have k: "gsub 1 re_plus (\<lambda>_. [32]) ?t = ?t"
    by (rule gsub_plus_keep) (simp add: np)
  have s1: "gsub 1 re_plus (\<lambda>_. [32]) (a @ ?t @ b) =
            gsub 1 re_plus (\<lambda>_. [32]) a @ ?t @ gsub 1 re_plus (\<lambda>_. [32]) b"
    unfolding gsub_plus_append k ..
  have s2: "gsub 9 re_esc3 decode3 (A @ ?t @ B) =
            gsub 9 re_esc3 decode3 A @ ?t @ gsub 9 re_esc3 decode3 B" for A B
    by (rule gsub_keeps_escapes [of re_esc3 9 cls_EF, OF re_esc3_wid _ re_esc3_inner
          re_esc3_starts ne nb f3 e2(1) e3(1)]) simp_all
  have s3: "gsub 6 re_esc2 decode2 (A @ ?t @ B) =
            gsub 6 re_esc2 decode2 A @ ?t @ gsub 6 re_esc2 decode2 B" for A B
    by (rule gsub_keeps_escapes [of re_esc2 6 cls_CD, OF re_esc2_wid _ re_esc2_inner
          re_esc2_starts ne nb f2 e2(2) e3(2)]) simp_all
  have s4: "gsub 3 re_esc1 decode1 (A @ ?t @ B) =
            gsub 3 re_esc1 decode1 A @ ?t @ gsub 3 re_esc1 decode1 B" for A B
    by (rule gsub_keeps_escapes [of re_esc1 3 cls_07, OF re_esc1_wid _ re_esc1_inner
          re_esc1_starts ne nb f1 e2(3) e3(3)]) simp_all
  show ?thesis
    unfolding decode_def Let_def s1 s2 s3 s4 ..
qed

text \<open>
  Claim C8 as stated fails for escapes written with lower-case hexadecimal digits. The
  hex pairs of \<open>%e2%84%a0\<close> are E2, 84 and A0, in the ranges of the claim; the packed
  value is \<open>0x2120\<close>, which is neither overlong nor above \<open>0xFFFF\<close>; and \<open>decode\<close>
  returns the text as it is, as it does when only the last escape is in lower case,
  because the patterns of \<open>decode\<close> have the class \<open>[0-9A-F]\<close> and no flag \<open>i\<close>.
\<close>

theorem decode_lower_case_escapes_kept:
  "ParseHexOctet 101 50 = Some 0xE2 \<and> ParseHexOctet 56 52 = Some 0x84 \<and>
   ParseHexOctet 97 48 = Some 0xA0 \<and>
   js ''%e2%84%a0'' = [37, 101, 50, 37, 56, 52, 37, 97, 48] \<and>
   utf8_pack3 0xE2 0x84 0xA0 = 0x2120 \<and>
   decode (js ''%e2%84%a0'') = js ''%e2%84%a0'' \<and>
   decode (js ''%E2%84%a0'') = js ''%E2%84%a0'' \<and>
   decode (js ''%E2%84%A0'') = [0x2120]"
  by (simp add: decode_eval ParseHexOctet_def is_hexdigit_def hexdigit_val_def utf8_pack3_def)

section \<open>What \<open>encode\<close> writes\<close>

lemma unreserved_not_surrogate:
  "uriUnreserved c \<Longrightarrow> \<not> is_lead_surrogate c \<and> \<not> is_trail_surrogate c"
  by (auto simp: uriUnreserved_def is_lead_surrogate_def is_trail_surrogate_def)

lemma encodeURIComponent_code_points:
  "encodeURIComponent s =
     (case code_points s of
        None \<Rightarrow> Inl URIError
      | Some cps \<Rightarrow> Inr (concat (map pct_escape_cp cps)))"
proof (induction s rule: encodeURIComponent.induct)
  case 1
  then show ?case by simp
next
  case (2 c s)
  show ?case
  proof (cases "uriUnreserved c")
    case True
    then show ?thesis
      using "2.IH"(1) unreserved_not_surrogate [OF True]
      by (simp add: prepend_def pct_escape_cp_def split: option.splits)
  next
    case False
    note nu = False
    show ?thesis
    proof (cases "\<not> is_lead_surrogate c \<and> \<not> is_trail_surrogate c")
      case True
      then show ?thesis
        using "2.IH"(2) nu
        by (simp add: prepend_def pct_escape_cp_def split: option.splits)
    next
      case False
      note sur = False
      show ?thesis
      proof (cases "is_trail_surrogate c")
        case True
        then show ?thesis using nu by simp
      next
        case False
        note lead = False
        show ?thesis
        proof (cases s)
          case Nil
          then show ?thesis using nu sur lead by simp
        next
          case (Cons d s')
          show ?thesis
          proof (cases "is_trail_surrogate d")
            case True
            have nr: "\<not> uriUnreserved ((c - 0xD800) * 0x400 + (d - 0xDC00) + 0x10000)"
              by (auto simp: uriUnreserved_def)
            show ?thesis
              using "2.IH"(3) [OF nu sur lead Cons True] nu sur lead Cons True nr
              by (simp add: prepend_def pct_escape_cp_def split: option.splits)
          next
            case False
            then show ?thesis using nu sur lead Cons by simp
          qed
        qed
      qed
    qed
  qed
qed


lemma gsub_concat_map:
  assumes "\<And>c r. P c \<Longrightarrow> gsub n m f (g c @ r) = g' c @ gsub n m f r"
    and "list_all P s"
  shows "gsub n m f (concat (map g s) @ r) = concat (map g' s) @ gsub n m f r"
  using assms(2) by (induction s) (simp_all add: assms(1))

lemma hexdigit_not_pct: "hexdigit n \<noteq> 37"
  by (simp add: hexdigit_def)

lemma pct_is_pct20: "pct b = [37, 50, 48] \<longleftrightarrow> b = 32"
proof
  assume "pct b = [37, 50, 48]"
  then have "hexdigit (b div 16) = 50" "hexdigit (b mod 16) = 48"
    by (simp_all add: pct_def)
  then have "b div 16 = 2" "b mod 16 = 0"
    by (auto simp: hexdigit_def split: if_splits)
  then show "b = 32" by presburger
next
  assume "b = 32"
  then show "pct b = [37, 50, 48]" by (simp add: pct_def hexdigit_def)
qed

lemma gsub_pct20_skip:
  assumes "b \<noteq> 32"
  shows "gsub 3 re_pct20 f (pct b @ r) = pct b @ gsub 3 re_pct20 f r"
proof -
  let ?h = "hexdigit (b div 16)" and ?l = "hexdigit (b mod 16)"
  have "take 3 (37 # ?h # ?l # r) = pct b" by (simp add: pct_def)
  then have "\<not> re_pct20 (take 3 (37 # ?h # ?l # r))"
    using assms pct_is_pct20 [of b] by (simp add: re_pct20_def)
  then have "gsub 3 re_pct20 f (37 # ?h # ?l # r) = 37 # gsub 3 re_pct20 f (?h # ?l # r)"
    by (rule gsub_skip)
  then show ?thesis
    by (simp add: pct_def gsub_skip_lit [of re_pct20, OF re_pct20_starts hexdigit_not_pct])
qed

lemma gsub_pct20_hit: "gsub 3 re_pct20 f (pct 32 @ r) = f [37, 50, 48] @ gsub 3 re_pct20 f r"
proof -
  have p: "pct 32 = [37, 50, 48]" by (simp add: pct_is_pct20)
  show ?thesis
    unfolding p by (rule gsub_hit) (simp_all add: re_pct20_def)
qed

lemma gsub_pct20_octets:
  "list_all (\<lambda>b. b \<noteq> 32) bs \<Longrightarrow>
   gsub 3 re_pct20 f (concat (map pct bs) @ r) = concat (map pct bs) @ gsub 3 re_pct20 f r"
  by (rule gsub_concat_map [where P = "\<lambda>b. b \<noteq> 32"]) (simp_all add: gsub_pct20_skip)

lemma utf8_not_space: "cp \<noteq> 32 \<Longrightarrow> list_all (\<lambda>b. b \<noteq> 32) (utf8 cp)"
  by (simp add: utf8_def)

lemma unreserved_facts:
  "uriUnreserved c \<Longrightarrow> c \<noteq> 37 \<and> c \<noteq> 32 \<and> c \<noteq> 43 \<and> c < 0x80"
  by (auto simp: uriUnreserved_def)

lemma gsub_pct20_escape:
  "gsub 3 re_pct20 (\<lambda>_. [43]) (pct_escape_cp cp @ r) =
   escape_cp cp @ gsub 3 re_pct20 (\<lambda>_. [43]) r"
proof (cases "uriUnreserved cp")
  case True
  then show ?thesis
    using unreserved_facts [OF True]
    by (simp add: pct_escape_cp_def escape_cp_def gsub_skip_lit [of re_pct20, OF re_pct20_starts])
next
  case False
  note nu = False
  show ?thesis
  proof (cases "cp = 32")
    case True
    then show ?thesis
      using nu gsub_pct20_hit [of "\<lambda>_. [43]" r]
      by (simp add: pct_escape_cp_def escape_cp_def pct_utf8_def utf8_def)
  next
    case False
    then show ?thesis
      using nu gsub_pct20_octets [OF utf8_not_space [OF False]]
      by (simp add: pct_escape_cp_def escape_cp_def pct_utf8_def)
  qed
qed

lemma gsub_pct20_escapes:
  "gsub 3 re_pct20 (\<lambda>_. [43]) (concat (map pct_escape_cp cps)) = concat (map escape_cp cps)"
  using gsub_concat_map [where P = "\<lambda>_. True" and r = "[]" and n = 3 and m = re_pct20
      and f = "\<lambda>_. [43]" and g = pct_escape_cp and g' = escape_cp and s = cps]
  by (simp add: gsub_pct20_escape list_all_iff)


lemma escaped_form_pct: "b < 256 \<Longrightarrow> escaped_form (pct b @ r) = escaped_form r"
  by (simp add: pct_def hexdigit_HEX)

lemma escaped_form_octets:
  "list_all (\<lambda>b. b < 256) bs \<Longrightarrow> escaped_form (concat (map pct bs) @ r) = escaped_form r"
  by (induction bs) (simp_all add: escaped_form_pct)

lemma utf8_octets: "cp < 0x110000 \<Longrightarrow> list_all (\<lambda>b. b < 256) (utf8 cp)"
  unfolding utf8_def by (simp; arith)

lemma escaped_form_escape:
  assumes "cp < 0x110000"
  shows "escaped_form (escape_cp cp @ r) = escaped_form r"
proof (cases "uriUnreserved cp")
  case True
  then show ?thesis
    using unreserved_facts [OF True] by (simp add: escape_cp_def)
next
  case False
  then show ?thesis
    using escaped_form_octets [OF utf8_octets [OF assms]]
    by (simp add: escape_cp_def pct_utf8_def uriUnreserved_def)
qed

lemma escaped_form_escapes:
  "list_all (\<lambda>cp. cp < 0x110000) cps \<Longrightarrow> escaped_form (concat (map escape_cp cps))"
  by (induction cps) (simp_all add: escaped_form_escape)

lemma code_points_bound:
  "code_points s = Some cps \<Longrightarrow> list_all (\<lambda>c. c < 0x10000) s \<Longrightarrow>
   list_all (\<lambda>cp. cp < 0x110000) cps"
proof (induction s arbitrary: cps rule: code_points.induct)
  case 1
  then show ?case by simp
next
  case (2 c s)
  show ?case
  proof (cases "\<not> is_lead_surrogate c \<and> \<not> is_trail_surrogate c")
    case True
    then show ?thesis
      using "2.IH"(1) "2.prems" by (auto split: option.splits)
  next
    case False
    then have lead: "is_lead_surrogate c" and nt: "\<not> is_trail_surrogate c"
      using "2.prems"(1) by (auto split: if_splits)
    obtain d s' where s: "s = d # s'" and d: "is_trail_surrogate d"
      using "2.prems"(1) False nt by (cases s) (auto split: if_splits)
    obtain cps' where cps': "code_points s' = Some cps'"
      and cps: "cps = ((c - 0xD800) * 0x400 + (d - 0xDC00) + 0x10000) # cps'"
      using "2.prems"(1) False nt s d by auto
    have "list_all (\<lambda>cp. cp < 0x110000) cps'"
      using "2.IH"(2) [OF False nt s d cps'] "2.prems"(2) s by simp
    moreover have "(c - 0xD800) * 0x400 + (d - 0xDC00) + 0x10000 < 0x110000"
      using lead d unfolding is_lead_surrogate_def is_trail_surrogate_def by arith
    ultimately show ?thesis by (simp add: cps)
  qed
qed

text \<open>
  Claim C4, as amended. For every string \<open>s\<close> without an unpaired surrogate,
  \<open>encode(s)\<close> is the concatenation, over the code points of \<open>s\<close>, of the character
  itself when it is unreserved, of \<open>+\<close> when it is a space, and of the escapes \<open>%XX\<close> of
  its UTF-8 octets otherwise (reserved characters included); on a string with an
  unpaired surrogate \<open>encode\<close> raises URIError. In the result every code unit is an
  unreserved character, the \<open>+\<close> of a space, or part of an escape.
\<close>

theorem encode_escapes_code_points:
  "encode (Str s) = encode_spec s \<and>
   (list_all (\<lambda>c. c < 0x10000) s \<longrightarrow>
    (case encode (Str s) of Inl e \<Rightarrow> e = URIError | Inr r \<Rightarrow> escaped_form r))"
proof -
  have e: "encode (Str s) = encode_spec s"
    by (simp add: encode_def encode_spec_def encodeURIComponent_code_points gsub_pct20_escapes
        split: option.splits)
  show ?thesis
    unfolding e
    by (auto simp: encode_spec_def escaped_form_escapes dest: code_points_bound
        split: option.splits)
qed

text \<open>
  Claim C4 as stated fails on a string that holds an unpaired surrogate: the host's
  \<open>encodeURIComponent\<close> raises URIError and \<open>encode\<close> returns nothing.
\<close>

theorem encode_lone_surrogate_raises: "encode (Str [0xD800]) = Inl URIError"
  by (simp add: encode_def is_lead_surrogate_def is_trail_surrogate_def uriUnreserved_def)


theorem encode_escapes_code_points_witness:
  "encode (Str (js ''a b+%'' @ [0x2120, 0xD83D, 0xDE00])) =
     Inr (js ''a+b%2B%25%E2%84%A0%F0%9F%98%80'') \<and>
   encode_spec (js ''a b+%'' @ [0x2120, 0xD83D, 0xDE00]) =
     Inr (js ''a+b%2B%25%E2%84%A0%F0%9F%98%80'') \<and>
   list_all (\<lambda>c. c < 0x10000) (js ''a b+%'' @ [0x2120, 0xD83D, 0xDE00]) \<and>
   escaped_form (js ''a+b%2B%25%E2%84%A0%F0%9F%98%80'')"
proof -
  let ?s = "js ''a b+%'' @ [0x2120, 0xD83D, 0xDE00]"
  have s: "encode_spec ?s = Inr (js ''a+b%2B%25%E2%84%A0%F0%9F%98%80'')"
    by (simp add: encode_spec_def js_def is_lead_surrogate_def is_trail_surrogate_def
        escape_cp_def uriUnreserved_def pct_utf8_def utf8_def pct_def hexdigit_def)
  have l: "list_all (\<lambda>c. c < 0x10000) ?s"
    by (simp add: js_def)
  note t = encode_escapes_code_points [of ?s]
  have e: "encode (Str ?s) = Inr (js ''a+b%2B%25%E2%84%A0%F0%9F%98%80'')"
    using t s by simp
  have "case encode (Str ?s) of Inl e \<Rightarrow> e = URIError | Inr r \<Rightarrow> escaped_form r"
    using t l by blast
  then have f: "escaped_form (js ''a+b%2B%25%E2%84%A0%F0%9F%98%80'')"
    unfolding e by simp
  show ?thesis
    using e s l f by simp
qed

section \<open>Decoding what \<open>encode\<close> wrote\<close>

lemma code_points_bmp: "list_all bmp_scalar s \<Longrightarrow> code_points s = Some s"
  by (induction s) (auto simp: bmp_scalar_def is_lead_surrogate_def is_trail_surrogate_def)

lemma decode2_pct:
  assumes "0xC0 \<le> B1" "B1 \<le> 0xDF" "0x80 \<le> B2" "B2 \<le> 0xBF"
  shows "re_esc2 (pct B1 @ pct B2)"
    and "decode2 (pct B1 @ pct B2) =
      (if B1 - 0xC0 < 2 then pct B1 @ pct B2 else [(B1 - 0xC0) * 64 + (B2 - 0x80)])"
proof -
  have d: "B1 div 16 < 16" "12 \<le> B1 div 16" "B1 div 16 < 14" "B2 div 16 < 16" "8 \<le> B2 div 16"
    "B2 div 16 < 12"
    using assms by simp_all
  have b: "B1 < 256" "B2 < 256" using assms by simp_all
  show "re_esc2 (pct B1 @ pct B2)"
    using d by (simp add: pct_def hexdigit_HEX cls_CD_hexdigit cls_89AB_hexdigit)
  have "(B1 - 0xC0) * 64 + (B2 - 0x80) < 65536"
    using assms by simp
  then show "decode2 (pct B1 @ pct B2) =
      (if B1 - 0xC0 < 2 then pct B1 @ pct B2 else [(B1 - 0xC0) * 64 + (B2 - 0x80)])"
    using b by (simp add: pct_def parseInt16_pct Let_def push_bit_eq_mult fromCharCode_def)
qed

lemma decode1_pct:
  assumes "B < 0x80"
  shows "re_esc1 (pct B)" and "decode1 (pct B) = [B]"
proof -
  have d: "B div 16 < 16" "B div 16 < 8" "B < 256" using assms by simp_all
  show "re_esc1 (pct B)"
    using d by (simp add: pct_def hexdigit_HEX cls_07_hexdigit)
  show "decode1 (pct B) = [B]"
    using d by (simp add: pct_def parseInt16_pct fromCharCode_def)
qed

text \<open>The octets of the UTF-8 encoding, by the size of the code point.\<close>

lemma pack3_unpack: "(c::nat) div 4096 * 4096 + c div 64 mod 64 * 64 + c mod 64 = c"
proof -
  have "c div 4096 = c div 64 div 64" by (simp add: div_mult2_eq)
  moreover have "c div 64 div 64 * 64 + c div 64 mod 64 = c div 64" by simp
  moreover have "c div 64 * 64 + c mod 64 = c" by simp
  ultimately show ?thesis by arith
qed

lemma not_overlong3: "0x800 \<le> (c::nat) \<Longrightarrow> \<not> (c div 4096 = 0 \<and> c div 64 mod 64 < 32)"
proof
  assume c: "0x800 \<le> c" and "c div 4096 = 0 \<and> c div 64 mod 64 < 32"
  moreover have "c mod 64 < 64" by simp
  ultimately have "c div 4096 * 4096 + c div 64 mod 64 * 64 + c mod 64 < 0x800"
    by arith
  then show False using c pack3_unpack [of c] by simp
qed

lemma utf8_1: "c < 0x80 \<Longrightarrow> pct_utf8 c = pct c"
  by (simp add: pct_utf8_def utf8_def)

lemma utf8_2:
  assumes "0x80 \<le> c" "c < 0x800"
  shows "pct_utf8 c = pct (0xC0 + c div 64) @ pct (0x80 + c mod 64)"
    and "0xC0 \<le> 0xC0 + c div 64" and "0xC0 + c div 64 \<le> 0xDF"
    and "0x80 \<le> 0x80 + c mod 64" and "0x80 + c mod 64 \<le> 0xBF"
    and "(0xC0 + c div 64 - 0xC0) * 64 + (0x80 + c mod 64 - 0x80) = c"
    and "\<not> 0xC0 + c div 64 - 0xC0 < 2"
proof -
  show "pct_utf8 c = pct (0xC0 + c div 64) @ pct (0x80 + c mod 64)"
    using assms by (simp add: pct_utf8_def utf8_def)
  show "0xC0 \<le> 0xC0 + c div 64" by simp
  show "0xC0 + c div 64 \<le> 0xDF" using assms by arith
  show "0x80 \<le> 0x80 + c mod 64" by simp
  show "0x80 + c mod 64 \<le> 0xBF" by arith
  show "(0xC0 + c div 64 - 0xC0) * 64 + (0x80 + c mod 64 - 0x80) = c" by simp
  show "\<not> 0xC0 + c div 64 - 0xC0 < 2" using assms by simp
qed

lemma utf8_3:
  assumes "0x800 \<le> c" "c < 0x10000"
  shows "pct_utf8 c = pct (0xE0 + c div 4096) @ pct (0x80 + c div 64 mod 64) @ pct (0x80 + c mod 64)"
    and "0xE0 \<le> 0xE0 + c div 4096" and "0xE0 + c div 4096 \<le> 0xFF"
    and "0x80 \<le> 0x80 + c div 64 mod 64" and "0x80 + c div 64 mod 64 \<le> 0xBF"
    and "0x80 \<le> 0x80 + c mod 64" and "0x80 + c mod 64 \<le> 0xBF"
    and "utf8_pack3 (0xE0 + c div 4096) (0x80 + c div 64 mod 64) (0x80 + c mod 64) = c"
    and "\<not> (0xE0 + c div 4096 - 0xE0 = 0 \<and> 0x80 + c div 64 mod 64 - 0x80 < 32)"
proof -
  show "pct_utf8 c = pct (0xE0 + c div 4096) @ pct (0x80 + c div 64 mod 64) @ pct (0x80 + c mod 64)"
    using assms by (simp add: pct_utf8_def utf8_def)
  show "0xE0 \<le> 0xE0 + c div 4096" by simp
  show "0xE0 + c div 4096 \<le> 0xFF" using assms by arith
  show "0x80 \<le> 0x80 + c div 64 mod 64" by simp
  show "0x80 + c div 64 mod 64 \<le> 0xBF" by arith
  show "0x80 \<le> 0x80 + c mod 64" by simp
  show "0x80 + c mod 64 \<le> 0xBF" by arith
  show "utf8_pack3 (0xE0 + c div 4096) (0x80 + c div 64 mod 64) (0x80 + c mod 64) = c"
    using pack3_unpack [of c] by (simp add: utf8_pack3_def)
  show "\<not> (0xE0 + c div 4096 - 0xE0 = 0 \<and> 0x80 + c div 64 mod 64 - 0x80 < 32)"
    using not_overlong3 [OF assms(1)] by simp
qed


lemma octet_not_EF: "b < 0xE0 \<Longrightarrow> \<not> cls_EF (hexdigit (b div 16))"
proof -
  assume "b < 0xE0"
  then have "b div 16 < 14" by arith
  then show ?thesis by (simp add: cls_EF_hexdigit)
qed

lemma octet_not_CD: "b < 0xC0 \<Longrightarrow> \<not> cls_CD (hexdigit (b div 16))"
proof -
  assume "b < 0xC0"
  then have "b div 16 < 12" by arith
  then show ?thesis by (simp add: cls_CD_hexdigit)
qed

lemma hexdigit_not_plus: "hexdigit n \<noteq> 43"
  by (simp add: hexdigit_def)

lemma octets_no_plus: "list_all (\<lambda>c. c \<noteq> 43) (concat (map pct bs))"
  by (induction bs) (simp_all add: pct_def hexdigit_not_plus)

lemma pct_utf8_no_plus: "list_all (\<lambda>c. c \<noteq> 43) (pct_utf8 cp)"
  unfolding pct_utf8_def by (rule octets_no_plus)

lemma gsub_concat_map_Nil:
  assumes "\<And>c r. P c \<Longrightarrow> gsub n m f (g c @ r) = g' c @ gsub n m f r"
    and "list_all P s"
  shows "gsub n m f (concat (map g s)) = concat (map g' s)"
  using gsub_concat_map [of P n m f g g' s "[]", OF assms] by simp

lemma pass_plus_chunk:
  assumes "bmp_scalar c"
  shows "gsub 1 re_plus (\<lambda>_. [32]) (escape_cp c @ r) =
         lit_from 0x10000 c @ gsub 1 re_plus (\<lambda>_. [32]) r"
proof (cases "uriUnreserved c")
  case True
  have "gsub 1 re_plus (\<lambda>_. [32]) [c] = [c]"
    using unreserved_facts [OF True] by (intro gsub_plus_keep) simp
  then show ?thesis
    using True by (simp only: gsub_plus_append escape_cp_def lit_from_def if_True simp_thms)
next
  case False
  note nu = False
  show ?thesis
  proof (cases "c = 32")
    case True
    have "gsub 1 re_plus (\<lambda>_. [32]) ([43] @ r) = [32] @ gsub 1 re_plus (\<lambda>_. [32]) r"
      by (rule gsub_hit) (simp_all add: re_plus_def)
    then show ?thesis
      using nu True by (simp add: escape_cp_def lit_from_def)
  next
    case False
    have "c < 0x10000" using assms by (simp add: bmp_scalar_def)
    then have e: "escape_cp c = pct_utf8 c" "lit_from 0x10000 c = pct_utf8 c"
      using nu False by (simp_all add: escape_cp_def lit_from_def)
    show ?thesis
      unfolding e by (simp only: gsub_plus_append gsub_plus_keep [OF pct_utf8_no_plus])
  qed
qed

lemma lit_cases:
  assumes "bmp_scalar c"
  obtains (lit) "uriUnreserved c \<or> c = 32" "c \<noteq> 37"
  | (one) "\<not> (uriUnreserved c \<or> c = 32)" "c < 0x80"
  | (two) "0x80 \<le> c" "c < 0x800" "\<not> (uriUnreserved c \<or> c = 32)"
  | (three) "0x800 \<le> c" "c < 0x10000" "\<not> (uriUnreserved c \<or> c = 32)"
proof -
  have "c < 0x10000" using assms by (simp add: bmp_scalar_def)
  moreover have "uriUnreserved c \<or> c = 32 \<Longrightarrow> c \<noteq> 37 \<and> c < 0x80"
    using unreserved_facts [of c] by auto
  ultimately show ?thesis
    using that by (cases "uriUnreserved c \<or> c = 32"; cases "c < 0x80"; cases "c < 0x800") auto
qed

lemma pass_esc3_chunk:
  assumes "bmp_scalar c"
  shows "gsub 9 re_esc3 decode3 (lit_from 0x10000 c @ r) =
         lit_from 0x800 c @ gsub 9 re_esc3 decode3 r"
  using assms
proof (cases c rule: lit_cases)
  case lit
  then have "lit_from t c = [c]" for t
    by (auto simp: lit_from_def)
  then show ?thesis
    using lit(2) by (simp add: gsub_skip_lit [of re_esc3 cls_EF, OF re_esc3_starts])
next
  case one
  then have e: "lit_from 0x10000 c = pct c" "lit_from 0x800 c = pct c"
    by (simp_all add: lit_from_def utf8_1)
  have n: "\<not> cls_EF (hexdigit (c div 16))"
    by (rule octet_not_EF) (use one(2) in simp)
  have b: "c < 256" using one(2) by simp
  show ?thesis
    unfolding e by (rule gsub_skip_pct [of re_esc3 cls_EF, OF re_esc3_starts n b])
next
  case two
  note u = utf8_2 [OF two(1,2)]
  have e: "lit_from 0x10000 c = pct_utf8 c" "lit_from 0x800 c = pct_utf8 c"
    using two by (simp_all add: lit_from_def)
  have n1: "\<not> cls_EF (hexdigit ((0xC0 + c div 64) div 16))"
    by (rule octet_not_EF) (use u(3) in simp)
  have n2: "\<not> cls_EF (hexdigit ((0x80 + c mod 64) div 16))"
    by (rule octet_not_EF) (use u(5) in simp)
  have b: "0xC0 + c div 64 < 256" "0x80 + c mod 64 < 256"
    using u(3,5) by simp_all
  show ?thesis
    unfolding e u(1)
    by (simp add: gsub_skip_pct [of re_esc3 cls_EF, OF re_esc3_starts n1 b(1)]
        gsub_skip_pct [of re_esc3 cls_EF, OF re_esc3_starts n2 b(2)])
next
  case three
  note u = utf8_3 [OF three(1,2)]
  have e: "lit_from 0x10000 c = pct_utf8 c" "lit_from 0x800 c = [c]"
    using three by (simp_all add: lit_from_def)
  let ?t = "pct (0xE0 + c div 4096) @ pct (0x80 + c div 64 mod 64) @ pct (0x80 + c mod 64)"
  have m: "re_esc3 ?t"
    by (rule decode3_pct(1) [OF u(2-7)])
  have "\<not> 0xFFFF < c" using three(2) by simp
  then have cond: "\<not> ((0xE0 + c div 4096 - 0xE0 = 0 \<and> 0x80 + c div 64 mod 64 - 0x80 < 32) \<or>
      0xFFFF < utf8_pack3 (0xE0 + c div 4096) (0x80 + c div 64 mod 64) (0x80 + c mod 64))"
    unfolding u(8) using u(9) by blast
  have "decode3 ?t =
      [utf8_pack3 (0xE0 + c div 4096) (0x80 + c div 64 mod 64) (0x80 + c mod 64)]"
    by (simp only: decode3_pct(2) [OF u(2-7)] if_not_P [OF cond])
  then have d: "decode3 ?t = [c]"
    by (simp only: u(8))
  have "gsub 9 re_esc3 decode3 (?t @ r) = decode3 ?t @ gsub 9 re_esc3 decode3 r"
    by (rule gsub_hit [where m = re_esc3 and t = ?t, OF m])
      (use re_esc3_wid [OF m] in simp_all)
  then show ?thesis
    unfolding e u(1) d by simp
qed

lemma pass_esc2_chunk:
  assumes "bmp_scalar c"
  shows "gsub 6 re_esc2 decode2 (lit_from 0x800 c @ r) =
         lit_from 0x80 c @ gsub 6 re_esc2 decode2 r"
  using assms
proof (cases c rule: lit_cases)
  case lit
  then have "lit_from t c = [c]" for t
    by (auto simp: lit_from_def)
  then show ?thesis
    using lit(2) by (simp add: gsub_skip_lit [of re_esc2 cls_CD, OF re_esc2_starts])
next
  case one
  then have e: "lit_from 0x800 c = pct c" "lit_from 0x80 c = pct c"
    by (simp_all add: lit_from_def utf8_1)
  have n: "\<not> cls_CD (hexdigit (c div 16))"
    by (rule octet_not_CD) (use one(2) in simp)
  have b: "c < 256" using one(2) by simp
  show ?thesis
    unfolding e by (rule gsub_skip_pct [of re_esc2 cls_CD, OF re_esc2_starts n b])
next
  case two
  note u = utf8_2 [OF two(1,2)]
  have e: "lit_from 0x800 c = pct_utf8 c" "lit_from 0x80 c = [c]"
    using two by (simp_all add: lit_from_def)
  let ?t = "pct (0xC0 + c div 64) @ pct (0x80 + c mod 64)"
  have m: "re_esc2 ?t"
    by (rule decode2_pct(1) [OF u(2-5)])
  have "decode2 ?t = [(0xC0 + c div 64 - 0xC0) * 64 + (0x80 + c mod 64 - 0x80)]"
    by (simp only: decode2_pct(2) [OF u(2-5)] if_not_P [OF u(7)])
  then have d: "decode2 ?t = [c]"
    by (simp only: u(6))
  have "gsub 6 re_esc2 decode2 (?t @ r) = decode2 ?t @ gsub 6 re_esc2 decode2 r"
    by (rule gsub_hit [where m = re_esc2 and t = ?t, OF m])
      (use re_esc2_wid [OF m] in simp_all)
  then show ?thesis
    unfolding e u(1) d by simp
next
  case three
  then have e: "lit_from 0x800 c = [c]" "lit_from 0x80 c = [c]" and "c \<noteq> 37"
    by (simp_all add: lit_from_def)
  then show ?thesis
    by (simp add: gsub_skip_lit [of re_esc2 cls_CD, OF re_esc2_starts])
qed

lemma pass_esc1_chunk:
  assumes "bmp_scalar c"
  shows "gsub 3 re_esc1 decode1 (lit_from 0x80 c @ r) = [c] @ gsub 3 re_esc1 decode1 r"
  using assms
proof (cases c rule: lit_cases)
  case lit
  then have "lit_from t c = [c]" for t
    by (auto simp: lit_from_def)
  then show ?thesis
    using lit(2) by (simp add: gsub_skip_lit [of re_esc1 cls_07, OF re_esc1_starts])
next
  case one
  then have e: "lit_from 0x80 c = pct c"
    by (simp_all add: lit_from_def utf8_1)
  have "gsub 3 re_esc1 decode1 (pct c @ r) = decode1 (pct c) @ gsub 3 re_esc1 decode1 r"
    by (rule gsub_hit [where m = re_esc1 and t = "pct c", OF decode1_pct(1) [OF one(2)]])
      (use re_esc1_wid [OF decode1_pct(1) [OF one(2)]] in simp_all)
  then show ?thesis
    unfolding e using decode1_pct(2) [OF one(2)] by simp
next
  case two
  then have e: "lit_from 0x80 c = [c]" and "c \<noteq> 37"
    by (simp_all add: lit_from_def)
  then show ?thesis
    by (simp add: gsub_skip_lit [of re_esc1 cls_07, OF re_esc1_starts])
next
  case three
  then have e: "lit_from 0x80 c = [c]" and "c \<noteq> 37"
    by (simp_all add: lit_from_def)
  then show ?thesis
    by (simp add: gsub_skip_lit [of re_esc1 cls_07, OF re_esc1_starts])
qed

text \<open>
  Claim C10. For every string \<open>s\<close> of code units that are scalar values up to \<open>0xFFFF\<close>
  (no surrogates), \<open>encode(s)\<close> returns and \<open>decode(encode(s))\<close> is \<open>s\<close>.
\<close>

theorem decode_encode_bmp:
  assumes "list_all bmp_scalar s"
  shows "map_sum id decode (encode (Str s)) = Inr s"
proof -
  have e: "encode (Str s) = Inr (concat (map escape_cp s))"
    by (simp add: encode_def encodeURIComponent_code_points code_points_bmp [OF assms]
        gsub_pct20_escapes)
  have 1: "gsub 1 re_plus (\<lambda>_. [32]) (concat (map escape_cp s)) = concat (map (lit_from 0x10000) s)"
  proof (rule gsub_concat_map_Nil [where P = bmp_scalar and g = escape_cp and g' = "lit_from 0x10000"])
    show "list_all bmp_scalar s" by fact
  qed (rule pass_plus_chunk)
  have 2: "gsub 9 re_esc3 decode3 (concat (map (lit_from 0x10000) s)) = concat (map (lit_from 0x800) s)"
  proof (rule gsub_concat_map_Nil [where P = bmp_scalar and g = "lit_from 0x10000" and g' = "lit_from 0x800"])
    show "list_all bmp_scalar s" by fact
  qed (rule pass_esc3_chunk)
  have 3: "gsub 6 re_esc2 decode2 (concat (map (lit_from 0x800) s)) = concat (map (lit_from 0x80) s)"
  proof (rule gsub_concat_map_Nil [where P = bmp_scalar and g = "lit_from 0x800" and g' = "lit_from 0x80"])
    show "list_all bmp_scalar s" by fact
  qed (rule pass_esc2_chunk)
  have 4: "gsub 3 re_esc1 decode1 (concat (map (lit_from 0x80) s)) = concat (map (\<lambda>c. [c]) s)"
  proof (rule gsub_concat_map_Nil [where P = bmp_scalar and g = "lit_from 0x80" and g' = "\<lambda>c. [c]"])
    show "list_all bmp_scalar s" by fact
  qed (rule pass_esc1_chunk)
  have 5: "concat (map (\<lambda>c. [c]) s) = s"
    by (induction s) simp_all
  have "decode (concat (map escape_cp s)) = s"
    unfolding decode_def Let_def 1 2 3 4 5 ..
  then show ?thesis
    by (simp add: e)
qed

theorem decode_encode_bmp_witness:
  "list_all bmp_scalar (js ''a b+%~&='' @ [0xE9, 0x2120, 0xFFFF]) \<and>
   encode (Str (js ''a b+%~&='' @ [0xE9, 0x2120, 0xFFFF])) =
     Inr (js ''a+b%2B%25~%26%3D%C3%A9%E2%84%A0%EF%BF%BF'') \<and>
   map_sum id decode (encode (Str (js ''a b+%~&='' @ [0xE9, 0x2120, 0xFFFF]))) =
     Inr (js ''a b+%~&='' @ [0xE9, 0x2120, 0xFFFF])"
proof -
  let ?s = "js ''a b+%~&='' @ [0xE9, 0x2120, 0xFFFF]"
  have b: "list_all bmp_scalar ?s"
    by (simp add: js_def bmp_scalar_def)
  have "encode_spec ?s = Inr (js ''a+b%2B%25~%26%3D%C3%A9%E2%84%A0%EF%BF%BF'')"
    by (simp add: encode_spec_def js_def is_lead_surrogate_def is_trail_surrogate_def
        escape_cp_def uriUnreserved_def pct_utf8_def utf8_def pct_def hexdigit_def)
  then have e: "encode (Str ?s) = Inr (js ''a+b%2B%25~%26%3D%C3%A9%E2%84%A0%EF%BF%BF'')"
    by (simp add: encode_def encode_spec_def encodeURIComponent_code_points
        gsub_pct20_escapes split: option.splits)
  show ?thesis
    using b e decode_encode_bmp [OF b] by simp
qed

section \<open>What \<open>plus\<close> and \<open>minus\<close> leave alone\<close>

lemma kept_refl: "kept n h h"
  by (simp add: kept_def)

lemma kept_trans: "kept n h h1 \<Longrightarrow> kept n h1 h2 \<Longrightarrow> kept n h h2"
  by (simp add: kept_def)

lemma kept_length: "kept n h h' \<Longrightarrow> n \<le> length h \<Longrightarrow> n \<le> length h'"
  by (simp add: kept_def)

lemma kept_append: "n \<le> length h \<Longrightarrow> kept n h (h @ ext)"
  by (simp add: kept_def)

lemma kept_update: "n \<le> a \<Longrightarrow> kept n h (h[a := c])"
  by (simp add: kept_def)

lemma kept_hbind:
  assumes n: "n \<le> length h"
    and m: "kept n h (fst m)"
    and f: "\<And>h1 x. m = (h1, Returned x) \<Longrightarrow> n \<le> length h1 \<Longrightarrow> kept n h1 (fst (f h1 x))"
  shows "kept n h (fst (hbind m f))"
proof (cases m)
  case (Pair h1 out)
  have k1: "kept n h h1"
    using m Pair by simp
  have l1: "n \<le> length h1"
    using kept_length [OF k1 n] .
  show ?thesis
  proof (cases out)
    case (Returned x)
    have "kept n h1 (fst (f h1 x))"
      using f Pair Returned l1 by simp
    then show ?thesis
      using k1 Pair Returned by (auto simp: hbind_def intro: kept_trans)
  next
    case (Threw e)
    then show ?thesis using k1 Pair by (simp add: hbind_def)
  next
    case Stuck
    then show ?thesis using k1 Pair by (simp add: hbind_def)
  qed
qed

lemma hbind_Returned:
  assumes "hbind m f = (h', Returned y)"
  obtains h1 x where "m = (h1, Returned x)" and "f h1 x = (h', Returned y)"
  using assms by (cases m; cases "snd m") (auto simp: hbind_def)

lemma get_arr_heap: "fst (get_arr h a) = h"
  by (simp add: get_arr_def split: option.splits cell.splits)

lemma get_pairs_heap: "fst (get_pairs h a) = h"
  by (simp add: get_pairs_def split: option.splits cell.splits)

lemma get_dict_heap: "fst (get_dict h a) = h"
  by (simp add: get_dict_def split: option.splits cell.splits)

lemma get_inst_heap: "fst (get_inst h a) = h"
  by (simp add: get_inst_def split: option.splits cell.splits)

lemma lift_err_heap: "fst (lift_err h r) = h"
  by (simp add: lift_err_def split: sum.splits)

lemmas read_heap = get_arr_heap get_pairs_heap get_dict_heap get_inst_heap lift_err_heap

lemma get_arr_Returned: "get_arr h a = (h1, Returned vs) \<Longrightarrow> h1 = h \<and> lookup h a = Some (Arr vs)"
  by (auto simp: get_arr_def split: option.splits cell.splits)

lemma get_pairs_Returned: "get_pairs h a = (h1, Returned ps) \<Longrightarrow> h1 = h \<and> lookup h a = Some (Pairs ps)"
  by (auto simp: get_pairs_def split: option.splits cell.splits)

lemma get_dict_Returned: "get_dict h a = (h1, Returned ps) \<Longrightarrow> h1 = h \<and> lookup h a = Some (Dict ps)"
  by (auto simp: get_dict_def split: option.splits cell.splits)

lemma get_inst_Returned:
  "get_inst h a = (h1, Returned da) \<Longrightarrow> h1 = h \<and> lookup h a = Some (Inst (fst da) (snd da))"
  by (auto simp: get_inst_def split: option.splits cell.splits)

lemma lift_err_Returned: "lift_err h r = (h1, Returned x) \<Longrightarrow> h1 = h \<and> r = Inr x"
  by (auto simp: lift_err_def split: sum.splits)

lemma h_alloc_Returned: "h_alloc h c = (h1, Returned a) \<Longrightarrow> h1 = h @ [c] \<and> a = length h"
  by (auto simp: h_alloc_def)

lemma kept_alloc: "n \<le> length h \<Longrightarrow> kept n h (fst (h_alloc h c))"
  by (simp add: h_alloc_def kept_append)

lemma kept_write: "n \<le> a \<Longrightarrow> kept n h (fst (h_write h a c))"
  by (simp add: h_write_def kept_update)

lemma kept_return: "kept n h (fst (h_return h x))"
  by (simp add: h_return_def kept_refl)

lemma kept_throw: "kept n h (fst (h_throw h e))"
  by (simp add: h_throw_def kept_refl)

lemma kept_push_pair: "n \<le> length h \<Longrightarrow> n \<le> al \<Longrightarrow> kept n h (fst (h_push_pair h al p))"
  unfolding h_push_pair_def
  by (rule kept_hbind) (auto simp: read_heap kept_refl kept_write)

lemma lookup_update:
  "lookup (h[a := c]) b = (if b = a \<and> a < length h then Some c else lookup h b)"
  by (auto simp: lookup_def)

lemma lookup_append:
  "lookup (h @ [c]) b = (if b = length h then Some c else lookup h b)"
  by (auto simp: lookup_def nth_append)

lemma list_all_put:
  "list_all P props \<Longrightarrow> P (k, a) \<Longrightarrow> list_all P (put props k a)"
  by (induction props) (auto simp: put_def)

lemma fresh_push_pair:
  "fresh_props n h d \<Longrightarrow> fresh_props n (fst (h_push_pair h al p)) d"
  by (auto simp: h_push_pair_def hbind_def get_pairs_def h_write_def fresh_props_def
      lookup_update split: option.splits cell.splits)

lemma kept_dict_add:
  assumes n: "n \<le> length h" and d: "n \<le> d" and fr: "fresh_props n h d"
  shows "kept n h (fst (h_dict_add h d kdec vdec))"
  unfolding h_dict_add_def
proof (rule kept_hbind [OF n])
  show "kept n h (fst (get_dict h d))"
    by (simp add: read_heap kept_refl)
next
  fix h1 props
  assume g: "get_dict h d = (h1, Returned props)" and l1: "n \<le> length h1"
  have h1: "h1 = h" and lk: "lookup h d = Some (Dict props)"
    using get_dict_Returned [OF g] by simp_all
  have all: "list_all (\<lambda>ka. n \<le> snd ka) props"
    using fr lk by (simp add: fresh_props_def)
  show "kept n h1
          (fst (case map_of props kdec of
                  None \<Rightarrow>
                    if kdec \<in> set Object_prototype_names then h_throw h1 TypeError
                    else hbind (h_alloc h1 (Arr [vdec]))
                           (\<lambda>h a. h_write h d (Dict (put props kdec a)))
                | Some a \<Rightarrow> hbind (get_arr h1 a) (\<lambda>h vs. h_write h a (Arr (vs @ [vdec])))))"
  proof (cases "map_of props kdec")
    case None
    show ?thesis
      unfolding None option.case
      by (auto simp: kept_throw kept_alloc l1 kept_write d intro!: kept_hbind [OF l1])
  next
    case (Some a)
    have "(kdec, a) \<in> set props"
      using Some by (rule map_of_SomeD)
    then have a: "n \<le> a"
      using all by (auto simp: list_all_iff)
    show ?thesis
      unfolding Some option.case
      by (auto simp: read_heap kept_refl kept_write a intro!: kept_hbind [OF l1])
  qed
qed

lemma fresh_dict_add:
  assumes n: "n \<le> length h" and fr: "fresh_props n h d"
  shows "fresh_props n (fst (h_dict_add h d kdec vdec)) d"
proof (cases "lookup h d")
  case None
  then show ?thesis
    using fr by (simp add: h_dict_add_def get_dict_def hbind_def)
next
  case (Some c)
  show ?thesis
  proof (cases c)
    case (Dict props)
    have lk: "lookup h d = Some (Dict props)"
      using Some Dict by simp
    have all: "list_all (\<lambda>ka. n \<le> snd ka) props"
      using fr lk by (simp add: fresh_props_def)
    show ?thesis
    proof (cases "map_of props kdec")
      case None
      have "list_all (\<lambda>ka. n \<le> snd ka) (put props kdec (length h))"
        using all n by (simp add: list_all_put)
      then show ?thesis
        using lk None fr
        by (auto simp: h_dict_add_def get_dict_def hbind_def h_throw_def h_alloc_def
            h_write_def fresh_props_def lookup_update lookup_append)
    next
      case (Some a)
      show ?thesis
        using lk Some fr
        by (auto simp: h_dict_add_def get_dict_def get_arr_def hbind_def h_write_def
            fresh_props_def lookup_update split: option.splits cell.splits)
    qed
  qed (use Some fr in \<open>simp_all add: h_dict_add_def get_dict_def hbind_def\<close>)
qed

lemma kept_add_match:
  assumes n: "n \<le> length h" and d: "n \<le> d" and al: "n \<le> al" and fr: "fresh_props n h d"
  shows "kept n h (fst (h_add_match h d al g1 g3))"
  unfolding h_add_match_def Let_def
proof (rule kept_hbind [OF n])
  show "kept n h (fst (lift_err h (decodeURIComponent (gsub 1 re_plus (\<lambda>_. [32]) g1))))"
    by (simp add: read_heap kept_refl)
next
  fix h1 kdec
  assume g: "lift_err h (decodeURIComponent (gsub 1 re_plus (\<lambda>_. [32]) g1)) = (h1, Returned kdec)"
    and l1: "n \<le> length h1"
  have h1: "h1 = h"
    using lift_err_Returned [OF g] by simp
  show "kept n h1
          (fst (hbind (h_dict_add h1 d kdec (case g3 of None \<Rightarrow> Null | Some v \<Rightarrow> Str (decode v)))
                 (\<lambda>h u. h_push_pair h al
                    \<lparr>key_enc = g1, key_dec = kdec,
                     val_enc = (case g3 of None \<Rightarrow> Null | Some v \<Rightarrow> Str v),
                     val_dec = (case g3 of None \<Rightarrow> Null | Some v \<Rightarrow> Str (decode v))\<rparr>)))"
    unfolding h1
    by (rule kept_hbind [OF n]) (simp_all add: kept_dict_add n d fr kept_push_pair al)
qed

lemma hbind_heap_cases:
  "fst (hbind m f) = fst m \<or> (\<exists>h1 x. m = (h1, Returned x) \<and> fst (hbind m f) = fst (f h1 x))"
  by (cases m; cases "snd m") (auto simp: hbind_def)

lemma fresh_add_match:
  assumes n: "n \<le> length h" and fr: "fresh_props n h d"
  shows "fresh_props n (fst (h_add_match h d al g1 g3)) d"
proof -
  let ?vdec = "case g3 of None \<Rightarrow> Null | Some v \<Rightarrow> Str (decode v)"
  let ?r = "decodeURIComponent (gsub 1 re_plus (\<lambda>_. [32]) g1)"
  show ?thesis
  proof (cases ?r)
    case (Inl e)
    then show ?thesis
      using fr by (simp add: h_add_match_def Let_def lift_err_def hbind_def)
  next
    case (Inr kdec)
    let ?p = "\<lparr>key_enc = g1, key_dec = kdec,
               val_enc = (case g3 of None \<Rightarrow> Null | Some v \<Rightarrow> Str v), val_dec = ?vdec\<rparr>"
    have e: "h_add_match h d al g1 g3 =
               hbind (h_dict_add h d kdec ?vdec) (\<lambda>h u. h_push_pair h al ?p)"
      using Inr by (simp add: h_add_match_def Let_def lift_err_def hbind_def)
    have f1: "fresh_props n (fst (h_dict_add h d kdec ?vdec)) d"
      using fresh_dict_add [OF n fr] .
    show ?thesis
      unfolding e
      using hbind_heap_cases [of "h_dict_add h d kdec ?vdec" "\<lambda>h u. h_push_pair h al ?p"]
        f1 fresh_push_pair [of n "fst (h_dict_add h d kdec ?vdec)" d al ?p]
      by auto
  qed
qed

lemma kept_parse_loop:
  "n \<le> length h \<Longrightarrow> n \<le> d \<Longrightarrow> n \<le> al \<Longrightarrow> fresh_props n h d \<Longrightarrow>
   kept n h (fst (h_parse_loop qs h d al))"
proof (induction qs h d al rule: h_parse_loop.induct)
  case (1 qs h d al)
  show ?case
  proof (cases "re_exec qs")
    case None
    then show ?thesis
      by (subst h_parse_loop.simps) (simp add: kept_return)
  next
    case (Some t)
    obtain g1 g3 rest where t: "t = (g1, g3, rest)"
      by (cases t) auto
    have e: "h_parse_loop qs h d al =
               hbind (h_add_match h d al g1 g3) (\<lambda>h' u. h_parse_loop rest h' d al)"
      by (subst h_parse_loop.simps) (simp add: Some t)
    show ?thesis
      unfolding e
    proof (rule kept_hbind [OF "1.prems"(1)])
      show "kept n h (fst (h_add_match h d al g1 g3))"
        using "1.prems" by (rule kept_add_match)
    next
      fix h1 x
      assume m: "h_add_match h d al g1 g3 = (h1, Returned x)" and l1: "n \<le> length h1"
      have "fresh_props n (fst (h_add_match h d al g1 g3)) d"
        using "1.prems"(1,4) by (rule fresh_add_match)
      then have fr1: "fresh_props n h1 d"
        using m by simp
      show "kept n h1 (fst (h_parse_loop rest h1 d al))"
        using "1.IH" [OF Some t [symmetric] refl l1 "1.prems"(2,3) fr1] .
    qed
  qed
qed

lemma kept_QueryString:
  assumes n: "n \<le> length h"
  shows "kept n h (fst (h_QueryString h qs0))"
  unfolding h_QueryString_def Let_def
proof (rule kept_hbind [OF n])
  show "kept n h (fst (h_alloc h (Dict [])))"
    using n by (rule kept_alloc)
next
  fix h1 d
  assume a1: "h_alloc h (Dict []) = (h1, Returned d)" and l1: "n \<le> length h1"
  have h1: "h1 = h @ [Dict []]" and d: "d = length h"
    using h_alloc_Returned [OF a1] by simp_all
  show "kept n h1
          (fst (hbind (h_alloc h1 (Pairs []))
                 (\<lambda>h al. hbind (h_alloc h (Inst d al))
                    (\<lambda>h this.
                       hbind (h_parse_loop (if take 1 qs0 = [63] then drop 1 qs0 else qs0) h d al)
                         (\<lambda>h u. h_return h this)))))"
  proof (rule kept_hbind [OF l1])
    show "kept n h1 (fst (h_alloc h1 (Pairs [])))"
      using l1 by (rule kept_alloc)
  next
    fix h2 al
    assume a2: "h_alloc h1 (Pairs []) = (h2, Returned al)" and l2: "n \<le> length h2"
    have h2: "h2 = h @ [Dict [], Pairs []]" and al: "al = Suc (length h)"
      using h_alloc_Returned [OF a2] h1 by simp_all
    show "kept n h2
            (fst (hbind (h_alloc h2 (Inst d al))
                   (\<lambda>h this.
                      hbind (h_parse_loop (if take 1 qs0 = [63] then drop 1 qs0 else qs0) h d al)
                        (\<lambda>h u. h_return h this))))"
    proof (rule kept_hbind [OF l2])
      show "kept n h2 (fst (h_alloc h2 (Inst d al)))"
        using l2 by (rule kept_alloc)
    next
      fix h3 this
      assume a3: "h_alloc h2 (Inst d al) = (h3, Returned this)" and l3: "n \<le> length h3"
      have h3: "h3 = h @ [Dict [], Pairs [], Inst d al]"
        using h_alloc_Returned [OF a3] h2 by simp
      have fr: "fresh_props n h3 d"
        by (simp add: fresh_props_def lookup_def h3 d nth_append)
      have dn: "n \<le> d" and aln: "n \<le> al"
        using n d al by simp_all
      show "kept n h3
              (fst (hbind (h_parse_loop (if take 1 qs0 = [63] then drop 1 qs0 else qs0) h3 d al)
                     (\<lambda>h u. h_return h this)))"
        by (rule kept_hbind [OF l3]) (simp_all add: kept_parse_loop l3 dn aln fr kept_return)
    qed
  qed
qed

lemma QueryString_Returned:
  assumes "h_QueryString h qs0 = (h', Returned r)"
  shows "length h \<le> r"
proof -
  from assms obtain h1 d where a1: "h_alloc h (Dict []) = (h1, Returned d)"
    and r1: "hbind (h_alloc h1 (Pairs []))
               (\<lambda>h al. hbind (h_alloc h (Inst d al))
                  (\<lambda>h this.
                     hbind (h_parse_loop (if take 1 qs0 = [63] then drop 1 qs0 else qs0) h d al)
                       (\<lambda>h u. h_return h this))) = (h', Returned r)"
    unfolding h_QueryString_def Let_def by (rule hbind_Returned)
  from r1 obtain h2 al where a2: "h_alloc h1 (Pairs []) = (h2, Returned al)"
    and r2: "hbind (h_alloc h2 (Inst d al))
               (\<lambda>h this.
                  hbind (h_parse_loop (if take 1 qs0 = [63] then drop 1 qs0 else qs0) h d al)
                    (\<lambda>h u. h_return h this)) = (h', Returned r)"
    by (rule hbind_Returned)
  from r2 obtain h3 this where a3: "h_alloc h2 (Inst d al) = (h3, Returned this)"
    and r3: "hbind (h_parse_loop (if take 1 qs0 = [63] then drop 1 qs0 else qs0) h3 d al)
               (\<lambda>h u. h_return h this) = (h', Returned r)"
    by (rule hbind_Returned)
  from r3 obtain h4 u where "h_return h4 this = (h', Returned r)"
    by (rule hbind_Returned)
  then have "r = this"
    by (simp add: h_return_def)
  then show ?thesis
    using h_alloc_Returned [OF a1] h_alloc_Returned [OF a2] h_alloc_Returned [OF a3] by simp
qed

text \<open>A callback of \<open>mapDict\<close> that leaves the objects below \<open>n\<close> alone.\<close>

lemma kept_mapDict_loop:
  assumes fkv: "\<And>h k a. n \<le> length h \<Longrightarrow> kept n h (fst (fkv h k a))"
    and ret: "n \<le> ret"
  shows "n \<le> length h \<Longrightarrow> kept n h (fst (h_mapDict_loop dprops fkv ps h ret))"
proof (induction ps arbitrary: h)
  case Nil
  show ?case by (simp add: kept_return)
next
  case (Cons ka ps)
  obtain k a where ka: "ka = (k, a)"
    by (cases ka) auto
  have IH: "kept n h1 (fst (h_mapDict_loop dprops fkv ps h1 ret))" if "n \<le> length h1" for h1
    using Cons.IH that .
  show ?case
    unfolding ka h_mapDict_loop.simps
  proof (rule kept_hbind [OF Cons.prems])
    show "kept n h (fst (lift_err h (hasOwnProperty dprops k)))"
      by (simp add: read_heap kept_refl)
  next
    fix h1 own
    assume l1: "n \<le> length (h1 :: heap)"
    show "kept n h1
            (fst (if \<not> own then h_mapDict_loop dprops fkv ps h1 ret
                  else hbind (fkv h1 k a)
                         (\<lambda>h replace.
                            case replace of
                              None \<Rightarrow> h_mapDict_loop dprops fkv ps h ret
                            | Some r \<Rightarrow>
                                hbind (get_dict h ret)
                                  (\<lambda>h rprops.
                                     hbind (h_write h ret (Dict (put rprops k r)))
                                       (\<lambda>h u. h_mapDict_loop dprops fkv ps h ret)))))"
    proof (cases own)
      case False
      then show ?thesis using IH [OF l1] by simp
    next
      case True
      have "kept n h1
              (fst (hbind (fkv h1 k a)
                     (\<lambda>h replace.
                        case replace of
                          None \<Rightarrow> h_mapDict_loop dprops fkv ps h ret
                        | Some r \<Rightarrow>
                            hbind (get_dict h ret)
                              (\<lambda>h rprops.
                                 hbind (h_write h ret (Dict (put rprops k r)))
                                   (\<lambda>h u. h_mapDict_loop dprops fkv ps h ret)))))"
      proof (rule kept_hbind [OF l1])
        show "kept n h1 (fst (fkv h1 k a))"
          using l1 by (rule fkv)
      next
        fix h2 replace
        assume l2: "n \<le> length (h2 :: heap)"
        show "kept n h2
                (fst (case replace of
                        None \<Rightarrow> h_mapDict_loop dprops fkv ps h2 ret
                      | Some r \<Rightarrow>
                          hbind (get_dict h2 ret)
                            (\<lambda>h rprops.
                               hbind (h_write h ret (Dict (put rprops k r)))
                                 (\<lambda>h u. h_mapDict_loop dprops fkv ps h ret))))"
        proof (cases replace)
          case None
          then show ?thesis using IH [OF l2] by simp
        next
          case (Some r)
          show ?thesis
            unfolding Some option.case
          proof (rule kept_hbind [OF l2])
            show "kept n h2 (fst (get_dict h2 ret))"
              by (simp add: read_heap kept_refl)
          next
            fix h3 rprops
            assume l3: "n \<le> length (h3 :: heap)"
            show "kept n h3
                    (fst (hbind (h_write h3 ret (Dict (put rprops k r)))
                           (\<lambda>h u. h_mapDict_loop dprops fkv ps h ret)))"
              by (rule kept_hbind [OF l3]) (simp_all add: kept_write ret IH)
          qed
        qed
      qed
      then show ?thesis using True by simp
    qed
  qed
qed

lemma kept_mapDict:
  assumes fkv: "\<And>h k a. n \<le> length h \<Longrightarrow> kept n h (fst (fkv h k a))"
    and n: "n \<le> length h"
  shows "kept n h (fst (h_mapDict h d fkv))"
  unfolding h_mapDict_def
proof (rule kept_hbind [OF n])
  show "kept n h (fst (get_dict h d))"
    by (simp add: read_heap kept_refl)
next
  fix h1 dprops
  assume l1: "n \<le> length (h1 :: heap)"
  show "kept n h1
          (fst (hbind (h_alloc h1 (Dict []))
                 (\<lambda>h ret. hbind (h_mapDict_loop dprops fkv (for_in dprops) h ret) (\<lambda>h u. h_return h ret))))"
  proof (rule kept_hbind [OF l1])
    show "kept n h1 (fst (h_alloc h1 (Dict [])))"
      using l1 by (rule kept_alloc)
  next
    fix h2 ret
    assume a: "h_alloc h1 (Dict []) = (h2, Returned ret)" and l2: "n \<le> length h2"
    have ret: "n \<le> ret"
      using h_alloc_Returned [OF a] l1 by simp
    show "kept n h2
            (fst (hbind (h_mapDict_loop dprops fkv (for_in dprops) h2 ret) (\<lambda>h u. h_return h ret)))"
      by (rule kept_hbind [OF l2]) (simp_all add: kept_mapDict_loop [OF fkv ret] l2 kept_return)
  qed
qed

lemma mapDict_Returned:
  assumes "h_mapDict h d fkv = (h', Returned nd)"
  shows "length h \<le> nd"
proof -
  from assms obtain h1 dprops where g: "get_dict h d = (h1, Returned dprops)"
    and r1: "hbind (h_alloc h1 (Dict []))
               (\<lambda>h ret. hbind (h_mapDict_loop dprops fkv (for_in dprops) h ret) (\<lambda>h u. h_return h ret))
             = (h', Returned nd)"
    unfolding h_mapDict_def by (rule hbind_Returned)
  from r1 obtain h2 ret where a: "h_alloc h1 (Dict []) = (h2, Returned ret)"
    and r2: "hbind (h_mapDict_loop dprops fkv (for_in dprops) h2 ret) (\<lambda>h u. h_return h ret)
             = (h', Returned nd)"
    by (rule hbind_Returned)
  from r2 obtain h3 u where "h_return h3 ret = (h', Returned nd)"
    by (rule hbind_Returned)
  then have "nd = ret"
    by (simp add: h_return_def)
  then show ?thesis
    using get_dict_Returned [OF g] h_alloc_Returned [OF a] by simp
qed

lemma kept_plus_own:
  assumes n: "n \<le> length h"
  shows "kept n h (fst (plus_own k v h ok ovs))"
proof (cases "ok = k")
  case False
  then show ?thesis by (simp add: plus_own_def kept_return)
next
  case True
  have "kept n h
          (fst (hbind (get_arr h ovs)
                 (\<lambda>h vs. hbind (h_alloc h (Arr vs))
                    (\<lambda>h retVs. hbind (get_arr h retVs)
                       (\<lambda>h rv. hbind (h_write h retVs (Arr (rv @ [v])))
                          (\<lambda>h u. h_return h (Some retVs)))))))"
  proof (rule kept_hbind [OF n])
    show "kept n h (fst (get_arr h ovs))"
      by (simp add: read_heap kept_refl)
  next
    fix h1 vs
    assume l1: "n \<le> length (h1 :: heap)"
    show "kept n h1
            (fst (hbind (h_alloc h1 (Arr vs))
                   (\<lambda>h retVs. hbind (get_arr h retVs)
                      (\<lambda>h rv. hbind (h_write h retVs (Arr (rv @ [v])))
                         (\<lambda>h u. h_return h (Some retVs))))))"
    proof (rule kept_hbind [OF l1])
      show "kept n h1 (fst (h_alloc h1 (Arr vs)))"
        using l1 by (rule kept_alloc)
    next
      fix h2 retVs
      assume a: "h_alloc h1 (Arr vs) = (h2, Returned retVs)" and l2: "n \<le> length h2"
      have r: "n \<le> retVs"
        using h_alloc_Returned [OF a] l1 by simp
      show "kept n h2
              (fst (hbind (get_arr h2 retVs)
                     (\<lambda>h rv. hbind (h_write h retVs (Arr (rv @ [v])))
                        (\<lambda>h u. h_return h (Some retVs)))))"
      proof (rule kept_hbind [OF l2])
        show "kept n h2 (fst (get_arr h2 retVs))"
          by (simp add: read_heap kept_refl)
      next
        fix h3 rv
        assume l3: "n \<le> length (h3 :: heap)"
        show "kept n h3
                (fst (hbind (h_write h3 retVs (Arr (rv @ [v]))) (\<lambda>h u. h_return h (Some retVs))))"
          by (rule kept_hbind [OF l3]) (simp_all add: kept_write r kept_return)
      qed
    qed
  qed
  then show ?thesis using True by (simp add: plus_own_def)
qed

lemma kept_plus_other: "kept n h (fst (plus_other h ok vs))"
  by (simp add: plus_other_def kept_return)

lemma kept_minus_fkv:
  assumes n: "n \<le> length h"
  shows "kept n h (fst (minus_fkv checkVals k v h ok ovs))"
proof (cases checkVals)
  case False
  then show ?thesis by (simp add: minus_fkv_def kept_return)
next
  case True
  have "kept n h
          (fst (hbind (get_arr h ovs)
                 (\<lambda>h os. hbind (h_alloc h (Arr (filter_arr os (\<lambda>el. el \<noteq> v))))
                    (\<lambda>h vs. if length (filter_arr os (\<lambda>el. el \<noteq> v)) = 0 then h_return h None
                             else h_return h (Some vs)))))"
  proof (rule kept_hbind [OF n])
    show "kept n h (fst (get_arr h ovs))"
      by (simp add: read_heap kept_refl)
  next
    fix h1 os
    assume l1: "n \<le> length (h1 :: heap)"
    show "kept n h1
            (fst (hbind (h_alloc h1 (Arr (filter_arr os (\<lambda>el. el \<noteq> v))))
                   (\<lambda>h vs. if length (filter_arr os (\<lambda>el. el \<noteq> v)) = 0 then h_return h None
                            else h_return h (Some vs))))"
      by (rule kept_hbind [OF l1]) (simp_all add: kept_alloc l1 kept_return)
  qed
  then show ?thesis using True by (simp add: minus_fkv_def)
qed

lemma kept_set_dict: "n \<le> length h \<Longrightarrow> n \<le> obj \<Longrightarrow> kept n h (fst (set_dict h obj d))"
  unfolding set_dict_def
  by (rule kept_hbind) (simp_all add: read_heap kept_refl kept_write)

lemma kept_set_alist: "n \<le> length h \<Longrightarrow> n \<le> obj \<Longrightarrow> kept n h (fst (set_alist h obj al))"
  unfolding set_alist_def
  by (rule kept_hbind) (simp_all add: read_heap kept_refl kept_write)

lemma kept_plus_dict:
  assumes l: "n \<le> length h" and r: "n \<le> retQS"
  shows "kept n h
           (fst (if own
                 then hbind (h_mapDict h d (plus_own k v)) (\<lambda>h nd. set_dict h retQS nd)
                 else hbind (h_mapDict h d plus_other) (\<lambda>h nd.
                      hbind (set_dict h retQS nd) (\<lambda>h u.
                      hbind (h_alloc h (Arr [v])) (\<lambda>h a.
                      hbind (get_dict h nd) (\<lambda>h nprops.
                        h_write h nd (Dict (put nprops k a))))))))"
proof (cases own)
  case True
  have "kept n h (fst (hbind (h_mapDict h d (plus_own k v)) (\<lambda>h nd. set_dict h retQS nd)))"
    by (rule kept_hbind [OF l]) (simp_all add: kept_mapDict kept_plus_own l kept_set_dict r)
  then show ?thesis using True by simp
next
  case False
  have "kept n h
          (fst (hbind (h_mapDict h d plus_other) (\<lambda>h nd.
                hbind (set_dict h retQS nd) (\<lambda>h u.
                hbind (h_alloc h (Arr [v])) (\<lambda>h a.
                hbind (get_dict h nd) (\<lambda>h nprops.
                  h_write h nd (Dict (put nprops k a))))))))"
  proof (rule kept_hbind [OF l])
    show "kept n h (fst (h_mapDict h d plus_other))"
      by (rule kept_mapDict) (simp_all add: kept_plus_other l)
  next
    fix h1 nd
    assume m: "h_mapDict h d plus_other = (h1, Returned nd)" and l1: "n \<le> length (h1 :: heap)"
    have nd: "n \<le> nd"
      using mapDict_Returned [OF m] l by simp
    show "kept n h1
            (fst (hbind (set_dict h1 retQS nd) (\<lambda>h u.
                  hbind (h_alloc h (Arr [v])) (\<lambda>h a.
                  hbind (get_dict h nd) (\<lambda>h nprops.
                    h_write h nd (Dict (put nprops k a)))))))"
    proof (rule kept_hbind [OF l1])
      show "kept n h1 (fst (set_dict h1 retQS nd))"
        using l1 r by (rule kept_set_dict)
    next
      fix h2 :: heap and u :: unit
      assume l2: "n \<le> length h2"
      show "kept n h2
              (fst (hbind (h_alloc h2 (Arr [v])) (\<lambda>h a.
                    hbind (get_dict h nd) (\<lambda>h nprops.
                      h_write h nd (Dict (put nprops k a))))))"
      proof (rule kept_hbind [OF l2])
        show "kept n h2 (fst (h_alloc h2 (Arr [v])))"
          using l2 by (rule kept_alloc)
      next
        fix h3 :: heap and a :: nat
        assume l3: "n \<le> length h3"
        show "kept n h3
                (fst (hbind (get_dict h3 nd) (\<lambda>h nprops. h_write h nd (Dict (put nprops k a)))))"
          by (rule kept_hbind [OF l3]) (simp_all add: read_heap kept_refl kept_write nd)
      qed
    qed
  qed
  then show ?thesis using False by simp
qed

lemma kept_plus_alist:
  assumes l: "n \<le> length h" and r: "n \<le> retQS"
  shows "kept n h
           (fst (hbind (get_pairs h al) (\<lambda>h ps.
                 hbind (h_alloc h (Pairs ps)) (\<lambda>h al'.
                 hbind (set_alist h retQS al') (\<lambda>h u.
                 hbind (lift_err h (encode (Str k))) (\<lambda>h kenc.
                 hbind (lift_err h (encode v)) (\<lambda>h venc.
                 hbind (h_push_pair h al'
                          \<lparr>key_enc = kenc, key_dec = k, val_enc = Str venc, val_dec = v\<rparr>) (\<lambda>h u.
                   h_return h retQS))))))))"
proof (rule kept_hbind [OF l])
  show "kept n h (fst (get_pairs h al))"
    by (simp add: read_heap kept_refl)
next
  fix h1 :: heap and ps :: "pair list"
  assume l1: "n \<le> length h1"
  show "kept n h1
          (fst (hbind (h_alloc h1 (Pairs ps)) (\<lambda>h al'.
                hbind (set_alist h retQS al') (\<lambda>h u.
                hbind (lift_err h (encode (Str k))) (\<lambda>h kenc.
                hbind (lift_err h (encode v)) (\<lambda>h venc.
                hbind (h_push_pair h al'
                         \<lparr>key_enc = kenc, key_dec = k, val_enc = Str venc, val_dec = v\<rparr>) (\<lambda>h u.
                  h_return h retQS)))))))"
  proof (rule kept_hbind [OF l1])
    show "kept n h1 (fst (h_alloc h1 (Pairs ps)))"
      using l1 by (rule kept_alloc)
  next
    fix h2 al'
    assume a: "h_alloc h1 (Pairs ps) = (h2, Returned al')" and l2: "n \<le> length (h2 :: heap)"
    have al': "n \<le> al'"
      using h_alloc_Returned [OF a] l1 by simp
    show "kept n h2
            (fst (hbind (set_alist h2 retQS al') (\<lambda>h u.
                  hbind (lift_err h (encode (Str k))) (\<lambda>h kenc.
                  hbind (lift_err h (encode v)) (\<lambda>h venc.
                  hbind (h_push_pair h al'
                           \<lparr>key_enc = kenc, key_dec = k, val_enc = Str venc, val_dec = v\<rparr>) (\<lambda>h u.
                    h_return h retQS))))))"
    proof (rule kept_hbind [OF l2])
      show "kept n h2 (fst (set_alist h2 retQS al'))"
        using l2 r by (rule kept_set_alist)
    next
      fix h3 :: heap and u :: unit
      assume l3: "n \<le> length h3"
      show "kept n h3
              (fst (hbind (lift_err h3 (encode (Str k))) (\<lambda>h kenc.
                    hbind (lift_err h (encode v)) (\<lambda>h venc.
                    hbind (h_push_pair h al'
                             \<lparr>key_enc = kenc, key_dec = k, val_enc = Str venc, val_dec = v\<rparr>) (\<lambda>h u.
                      h_return h retQS)))))"
      proof (rule kept_hbind [OF l3])
        show "kept n h3 (fst (lift_err h3 (encode (Str k))))"
          by (simp add: read_heap kept_refl)
      next
        fix h4 :: heap and kenc :: jsstring
        assume l4: "n \<le> length h4"
        show "kept n h4
                (fst (hbind (lift_err h4 (encode v)) (\<lambda>h venc.
                      hbind (h_push_pair h al'
                               \<lparr>key_enc = kenc, key_dec = k, val_enc = Str venc, val_dec = v\<rparr>) (\<lambda>h u.
                        h_return h retQS))))"
        proof (rule kept_hbind [OF l4])
          show "kept n h4 (fst (lift_err h4 (encode v)))"
            by (simp add: read_heap kept_refl)
        next
          fix h5 :: heap and venc :: jsstring
          assume l5: "n \<le> length h5"
          show "kept n h5
                  (fst (hbind (h_push_pair h5 al'
                                 \<lparr>key_enc = kenc, key_dec = k, val_enc = Str venc, val_dec = v\<rparr>)
                         (\<lambda>h u. h_return h retQS)))"
            by (rule kept_hbind [OF l5]) (simp_all add: kept_push_pair l5 al' kept_return)
        qed
      qed
    qed
  qed
qed

lemma kept_plus: "kept (length h) h (fst (h_plus loc h this k v))"
  unfolding h_plus_def
proof (rule kept_hbind)
  show "length h \<le> length h" by simp
  show "kept (length h) h (fst (h_QueryString h loc))"
    by (rule kept_QueryString) simp
next
  fix h1 retQS
  assume q: "h_QueryString h loc = (h1, Returned retQS)" and l1: "length h \<le> length (h1 :: heap)"
  have r: "length h \<le> retQS"
    using q by (rule QueryString_Returned)
  show "kept (length h) h1
          (fst (hbind (get_inst h1 this) (\<lambda>h da.
                hbind (get_dict h (fst da)) (\<lambda>h props.
                hbind (lift_err h (hasOwnProperty props k)) (\<lambda>h own.
                hbind (if own
                       then hbind (h_mapDict h (fst da) (plus_own k v)) (\<lambda>h nd. set_dict h retQS nd)
                       else hbind (h_mapDict h (fst da) plus_other) (\<lambda>h nd.
                            hbind (set_dict h retQS nd) (\<lambda>h u.
                            hbind (h_alloc h (Arr [v])) (\<lambda>h a.
                            hbind (get_dict h nd) (\<lambda>h nprops.
                              h_write h nd (Dict (put nprops k a))))))) (\<lambda>h u.
                hbind (get_pairs h (snd da)) (\<lambda>h ps.
                hbind (h_alloc h (Pairs ps)) (\<lambda>h al'.
                hbind (set_alist h retQS al') (\<lambda>h u.
                hbind (lift_err h (encode (Str k))) (\<lambda>h kenc.
                hbind (lift_err h (encode v)) (\<lambda>h venc.
                hbind (h_push_pair h al'
                         \<lparr>key_enc = kenc, key_dec = k, val_enc = Str venc, val_dec = v\<rparr>) (\<lambda>h u.
                  h_return h retQS))))))))))))"
  proof (rule kept_hbind [OF l1])
    show "kept (length h) h1 (fst (get_inst h1 this))"
      by (simp add: read_heap kept_refl)
  next
    fix h2 :: heap and da :: "nat \<times> nat"
    assume l2: "length h \<le> length h2"
    show "kept (length h) h2
            (fst (hbind (get_dict h2 (fst da)) (\<lambda>h props.
                  hbind (lift_err h (hasOwnProperty props k)) (\<lambda>h own.
                  hbind (if own
                         then hbind (h_mapDict h (fst da) (plus_own k v)) (\<lambda>h nd. set_dict h retQS nd)
                         else hbind (h_mapDict h (fst da) plus_other) (\<lambda>h nd.
                              hbind (set_dict h retQS nd) (\<lambda>h u.
                              hbind (h_alloc h (Arr [v])) (\<lambda>h a.
                              hbind (get_dict h nd) (\<lambda>h nprops.
                                h_write h nd (Dict (put nprops k a))))))) (\<lambda>h u.
                  hbind (get_pairs h (snd da)) (\<lambda>h ps.
                  hbind (h_alloc h (Pairs ps)) (\<lambda>h al'.
                  hbind (set_alist h retQS al') (\<lambda>h u.
                  hbind (lift_err h (encode (Str k))) (\<lambda>h kenc.
                  hbind (lift_err h (encode v)) (\<lambda>h venc.
                  hbind (h_push_pair h al'
                           \<lparr>key_enc = kenc, key_dec = k, val_enc = Str venc, val_dec = v\<rparr>) (\<lambda>h u.
                    h_return h retQS)))))))))))"
    proof (rule kept_hbind [OF l2])
      show "kept (length h) h2 (fst (get_dict h2 (fst da)))"
        by (simp add: read_heap kept_refl)
    next
      fix h3 :: heap and props :: "(jsstring \<times> nat) list"
      assume l3: "length h \<le> length h3"
      show "kept (length h) h3
              (fst (hbind (lift_err h3 (hasOwnProperty props k)) (\<lambda>h own.
                    hbind (if own
                           then hbind (h_mapDict h (fst da) (plus_own k v)) (\<lambda>h nd. set_dict h retQS nd)
                           else hbind (h_mapDict h (fst da) plus_other) (\<lambda>h nd.
                                hbind (set_dict h retQS nd) (\<lambda>h u.
                                hbind (h_alloc h (Arr [v])) (\<lambda>h a.
                                hbind (get_dict h nd) (\<lambda>h nprops.
                                  h_write h nd (Dict (put nprops k a))))))) (\<lambda>h u.
                    hbind (get_pairs h (snd da)) (\<lambda>h ps.
                    hbind (h_alloc h (Pairs ps)) (\<lambda>h al'.
                    hbind (set_alist h retQS al') (\<lambda>h u.
                    hbind (lift_err h (encode (Str k))) (\<lambda>h kenc.
                    hbind (lift_err h (encode v)) (\<lambda>h venc.
                    hbind (h_push_pair h al'
                             \<lparr>key_enc = kenc, key_dec = k, val_enc = Str venc, val_dec = v\<rparr>) (\<lambda>h u.
                      h_return h retQS))))))))))"
      proof (rule kept_hbind [OF l3])
        show "kept (length h) h3 (fst (lift_err h3 (hasOwnProperty props k)))"
          by (simp add: read_heap kept_refl)
      next
        fix h4 :: heap and own :: bool
        assume l4: "length h \<le> length h4"
        show "kept (length h) h4
                (fst (hbind (if own
                             then hbind (h_mapDict h4 (fst da) (plus_own k v)) (\<lambda>h nd. set_dict h retQS nd)
                             else hbind (h_mapDict h4 (fst da) plus_other) (\<lambda>h nd.
                                  hbind (set_dict h retQS nd) (\<lambda>h u.
                                  hbind (h_alloc h (Arr [v])) (\<lambda>h a.
                                  hbind (get_dict h nd) (\<lambda>h nprops.
                                    h_write h nd (Dict (put nprops k a))))))) (\<lambda>h u.
                      hbind (get_pairs h (snd da)) (\<lambda>h ps.
                      hbind (h_alloc h (Pairs ps)) (\<lambda>h al'.
                      hbind (set_alist h retQS al') (\<lambda>h u.
                      hbind (lift_err h (encode (Str k))) (\<lambda>h kenc.
                      hbind (lift_err h (encode v)) (\<lambda>h venc.
                      hbind (h_push_pair h al'
                               \<lparr>key_enc = kenc, key_dec = k, val_enc = Str venc, val_dec = v\<rparr>) (\<lambda>h u.
                        h_return h retQS)))))))))"
          by (rule kept_hbind [OF l4]) (simp_all add: kept_plus_dict l4 r kept_plus_alist)
      qed
    qed
  qed
qed

lemma kept_minus: "kept (length h) h (fst (h_minus loc h this k arg2))"
  unfolding h_minus_def Let_def
proof (rule kept_hbind)
  show "length h \<le> length h" by simp
  show "kept (length h) h (fst (h_QueryString h loc))"
    by (rule kept_QueryString) simp
next
  fix h1 retQS
  assume q: "h_QueryString h loc = (h1, Returned retQS)" and l1: "length h \<le> length (h1 :: heap)"
  let ?v = "case arg2 of None \<Rightarrow> Undefined | Some w \<Rightarrow> w"
  let ?keep = "\<lambda>pair. \<not> (key_dec pair = k \<and> (\<not> arg2 \<noteq> None \<or> val_dec pair = ?v))"
  have r: "length h \<le> retQS"
    using q by (rule QueryString_Returned)
  show "kept (length h) h1
          (fst (hbind (get_inst h1 this) (\<lambda>h da.
                hbind (h_mapDict h (fst da) (minus_fkv (arg2 \<noteq> None) k ?v)) (\<lambda>h nd.
                hbind (set_dict h retQS nd) (\<lambda>h u.
                hbind (get_pairs h (snd da)) (\<lambda>h ps.
                hbind (h_alloc h (Pairs (filter_arr ps ?keep))) (\<lambda>h al'.
                hbind (set_alist h retQS al') (\<lambda>h u.
                  h_return h retQS))))))))"
  proof (rule kept_hbind [OF l1])
    show "kept (length h) h1 (fst (get_inst h1 this))"
      by (simp add: read_heap kept_refl)
  next
    fix h2 :: heap and da :: "nat \<times> nat"
    assume l2: "length h \<le> length h2"
    show "kept (length h) h2
            (fst (hbind (h_mapDict h2 (fst da) (minus_fkv (arg2 \<noteq> None) k ?v)) (\<lambda>h nd.
                  hbind (set_dict h retQS nd) (\<lambda>h u.
                  hbind (get_pairs h (snd da)) (\<lambda>h ps.
                  hbind (h_alloc h (Pairs (filter_arr ps ?keep))) (\<lambda>h al'.
                  hbind (set_alist h retQS al') (\<lambda>h u.
                    h_return h retQS)))))))"
    proof (rule kept_hbind [OF l2])
      show "kept (length h) h2 (fst (h_mapDict h2 (fst da) (minus_fkv (arg2 \<noteq> None) k ?v)))"
        by (rule kept_mapDict) (simp_all add: kept_minus_fkv l2)
    next
      fix h3 :: heap and nd :: nat
      assume l3: "length h \<le> length h3"
      show "kept (length h) h3
              (fst (hbind (set_dict h3 retQS nd) (\<lambda>h u.
                    hbind (get_pairs h (snd da)) (\<lambda>h ps.
                    hbind (h_alloc h (Pairs (filter_arr ps ?keep))) (\<lambda>h al'.
                    hbind (set_alist h retQS al') (\<lambda>h u.
                      h_return h retQS))))))"
      proof (rule kept_hbind [OF l3])
        show "kept (length h) h3 (fst (set_dict h3 retQS nd))"
          using l3 r by (rule kept_set_dict)
      next
        fix h4 :: heap and u :: unit
        assume l4: "length h \<le> length h4"
        show "kept (length h) h4
                (fst (hbind (get_pairs h4 (snd da)) (\<lambda>h ps.
                      hbind (h_alloc h (Pairs (filter_arr ps ?keep))) (\<lambda>h al'.
                      hbind (set_alist h retQS al') (\<lambda>h u.
                        h_return h retQS)))))"
        proof (rule kept_hbind [OF l4])
          show "kept (length h) h4 (fst (get_pairs h4 (snd da)))"
            by (simp add: read_heap kept_refl)
        next
          fix h5 :: heap and ps :: "pair list"
          assume l5: "length h \<le> length h5"
          show "kept (length h) h5
                  (fst (hbind (h_alloc h5 (Pairs (filter_arr ps ?keep))) (\<lambda>h al'.
                        hbind (set_alist h retQS al') (\<lambda>h u.
                          h_return h retQS))))"
          proof (rule kept_hbind [OF l5])
            show "kept (length h) h5 (fst (h_alloc h5 (Pairs (filter_arr ps ?keep))))"
              using l5 by (rule kept_alloc)
          next
            fix h6 :: heap and al' :: nat
            assume l6: "length h \<le> length h6"
            show "kept (length h) h6
                    (fst (hbind (set_alist h6 retQS al') (\<lambda>h u. h_return h retQS)))"
              by (rule kept_hbind [OF l6]) (simp_all add: kept_set_alist l6 r kept_return)
          qed
        qed
      qed
    qed
  qed
qed

lemma kept_lookup:
  assumes "kept (length h) h h'" and "lookup h a = Some c"
  shows "lookup h' a = Some c"
proof -
  have a: "a < length h" and c: "h ! a = c"
    using assms(2) by (auto simp: lookup_def split: if_splits)
  have "take (length h) h' ! a = h ! a"
    using assms(1) by (simp add: kept_def)
  then have "h' ! a = c"
    using a c by simp
  moreover have "a < length h'"
    using a assms(1) by (simp add: kept_def)
  ultimately show ?thesis
    by (simp add: lookup_def)
qed

lemma kept_load_props:
  assumes k: "kept (length h) h h'"
  shows "load_props h props = Some d \<Longrightarrow> load_props h' props = Some d"
proof (induction props arbitrary: d)
  case Nil
  then show ?case by simp
next
  case (Cons ka props)
  obtain key a where ka: "ka = (key, a)"
    by (cases ka) auto
  from Cons.prems obtain vs d0 where lk: "lookup h a = Some (Arr vs)"
    and d0: "load_props h props = Some d0" and d: "d = (key, vs) # d0"
    unfolding ka by (auto split: option.splits cell.splits)
  show ?case
    unfolding ka using kept_lookup [OF k lk] Cons.IH [OF d0] d by simp
qed

lemma kept_load:
  assumes k: "kept (length h) h h'" and l: "load h this = Some q"
  shows "load h' this = Some q"
proof -
  from l obtain d al props ps dct where
    l1: "lookup h this = Some (Inst d al)" and l2: "lookup h d = Some (Dict props)"
    and l3: "lookup h al = Some (Pairs ps)" and l4: "load_props h props = Some dct"
    and q: "q = \<lparr>dict = dct, alist = ps\<rparr>"
    unfolding load_def by (auto split: option.splits cell.splits)
  show ?thesis
    unfolding load_def
    using kept_lookup [OF k l1] kept_lookup [OF k l2] kept_lookup [OF k l3]
      kept_load_props [OF k l4] q
    by simp
qed

section \<open>The reading methods and the loaded object\<close>

lemma load_props_keys: "load_props h props = Some dct \<Longrightarrow> map fst dct = map fst props"
proof (induction props arbitrary: dct)
  case Nil
  then show ?case by simp
next
  case (Cons ka props)
  obtain key a where ka: "ka = (key, a)"
    by (cases ka) auto
  from Cons.prems obtain vs d0 where "load_props h props = Some d0" and "dct = (key, vs) # d0"
    unfolding ka by (auto split: option.splits cell.splits)
  then show ?case
    unfolding ka using Cons.IH by simp
qed

lemma load_props_map_of:
  "load_props h props = Some dct \<Longrightarrow> map_of props k = Some a \<Longrightarrow>
   \<exists>vs. lookup h a = Some (Arr vs) \<and> map_of dct k = Some vs"
proof (induction props arbitrary: dct)
  case Nil
  then show ?case by simp
next
  case (Cons ka props)
  obtain key b where ka: "ka = (key, b)"
    by (cases ka) auto
  from Cons.prems(1) obtain vs d0 where lk: "lookup h b = Some (Arr vs)"
    and d0: "load_props h props = Some d0" and d: "dct = (key, vs) # d0"
    unfolding ka by (auto split: option.splits cell.splits)
  show ?case
  proof (cases "k = key")
    case True
    then show ?thesis
      using Cons.prems(2) lk d unfolding ka by simp
  next
    case False
    then have "map_of props k = Some a"
      using Cons.prems(2) unfolding ka by simp
    then show ?thesis
      using Cons.IH [OF d0] d False by simp
  qed
qed

lemma map_of_None_keys: "map fst d = map fst d' \<Longrightarrow> (map_of d k = None) = (map_of d' k = None)"
  by (metis list.set_map map_of_eq_None_iff)

lemma hasOwnProperty_keys:
  "map fst d = map fst d' \<Longrightarrow> hasOwnProperty d k = hasOwnProperty d' k"
  using map_of_None_keys [of d d' k] map_of_None_keys [of d d' "js ''hasOwnProperty''"]
  by (simp add: hasOwnProperty_def)

lemma keys_loop_keys:
  "map fst d = map fst d' \<Longrightarrow> map fst ps = map fst ps' \<Longrightarrow>
   keys_loop d ps a = keys_loop d' ps' a"
proof (induction ps arbitrary: ps' a)
  case Nil
  then show ?case by simp
next
  case (Cons p ps)
  obtain key x where p: "p = (key, x)"
    by (cases p) auto
  from Cons.prems(2) obtain y qs where ps': "ps' = (key, y) # qs" and qs: "map fst ps = map fst qs"
    unfolding p by (cases ps') auto
  show ?case
    unfolding p ps' keys_loop.simps hasOwnProperty_keys [OF Cons.prems(1), of key]
    using Cons.IH [OF Cons.prems(1) qs]
    by (simp split: sum.splits)
qed

lemma map_insort_key_fst:
  "map fst (insort_key (\<lambda>ka. g (fst ka)) x xs) = insort_key g (fst x) (map fst xs)"
  by (induction xs) simp_all

lemma map_sort_key_fst:
  "map fst (sort_key (\<lambda>ka. g (fst ka)) xs) = sort_key g (map fst xs)"
  by (induction xs) (simp_all add: map_insort_key_fst)

lemma for_in_keys:
  "map fst (for_in d) =
     sort_key digits_val (filter is_array_index (map fst d)) @
     filter (\<lambda>k. \<not> is_array_index k) (map fst d)"
  by (simp add: for_in_def map_sort_key_fst filter_map comp_def)

lemma load_parts:
  assumes "load h this = Some q"
  obtains d al props where "lookup h this = Some (Inst d al)"
    and "lookup h d = Some (Dict props)"
    and "lookup h al = Some (Pairs (alist q))"
    and "load_props h props = Some (dict q)"
proof -
  from assms obtain d al props ps dct where
    "lookup h this = Some (Inst d al)" "lookup h d = Some (Dict props)"
    "lookup h al = Some (Pairs ps)" "load_props h props = Some dct"
    "q = \<lparr>dict = dct, alist = ps\<rparr>"
    unfolding load_def by (auto split: option.splits cell.splits)
  then show ?thesis
    using that by simp
qed

lemma value_load:
  assumes "load h this = Some q"
  shows "h_value h this key = outcome_of (qs_value q key)"
proof -
  from assms obtain d al props where l1: "lookup h this = Some (Inst d al)"
    and l2: "lookup h d = Some (Dict props)"
    and l4: "load_props h props = Some (dict q)"
    by (rule load_parts)
  have own: "hasOwnProperty props key = hasOwnProperty (dict q) key"
    using load_props_keys [OF l4] by (rule hasOwnProperty_keys [symmetric])
  show ?thesis
  proof (cases "hasOwnProperty (dict q) key")
    case (Inl e)
    then show ?thesis
      using own l1 l2
      by (simp add: h_value_def qs_value_def outcome_of_def hbind_def get_inst_def
          get_dict_def lift_err_def)
  next
    case (Inr b)
    show ?thesis
    proof (cases b)
      case False
      then show ?thesis
        using own l1 l2 Inr
        by (simp add: h_value_def qs_value_def outcome_of_def hbind_def get_inst_def
            get_dict_def lift_err_def h_return_def)
    next
      case True
      have "map_of props key \<noteq> None"
        using own Inr True by (auto simp: hasOwnProperty_def split: if_splits)
      then obtain a where a: "map_of props key = Some a"
        by auto
      obtain vs where lk: "lookup h a = Some (Arr vs)" and vs: "map_of (dict q) key = Some vs"
        using load_props_map_of [OF l4 a] by auto
      show ?thesis
        using own l1 l2 Inr True a lk vs
        by (simp add: h_value_def qs_value_def outcome_of_def hbind_def get_inst_def
            get_dict_def get_arr_def lift_err_def h_return_def Let_def)
    qed
  qed
qed

lemma values_load:
  assumes "load h this = Some q"
  shows "h_values h this key = outcome_of (qs_values q key)"
proof -
  from assms obtain d al props where l1: "lookup h this = Some (Inst d al)"
    and l2: "lookup h d = Some (Dict props)"
    and l4: "load_props h props = Some (dict q)"
    by (rule load_parts)
  have own: "hasOwnProperty props key = hasOwnProperty (dict q) key"
    using load_props_keys [OF l4] by (rule hasOwnProperty_keys [symmetric])
  show ?thesis
  proof (cases "hasOwnProperty (dict q) key")
    case (Inl e)
    then show ?thesis
      using own l1 l2
      by (simp add: h_values_def qs_values_def outcome_of_def hbind_def get_inst_def
          get_dict_def lift_err_def)
  next
    case (Inr b)
    show ?thesis
    proof (cases b)
      case False
      then show ?thesis
        using own l1 l2 Inr
        by (simp add: h_values_def qs_values_def outcome_of_def hbind_def get_inst_def
            get_dict_def lift_err_def h_return_def)
    next
      case True
      have "map_of props key \<noteq> None"
        using own Inr True by (auto simp: hasOwnProperty_def split: if_splits)
      then obtain a where a: "map_of props key = Some a"
        by auto
      obtain vs where lk: "lookup h a = Some (Arr vs)" and vs: "map_of (dict q) key = Some vs"
        using load_props_map_of [OF l4 a] by auto
      show ?thesis
        using own l1 l2 Inr True a lk vs
        by (simp add: h_values_def qs_values_def outcome_of_def hbind_def get_inst_def
            get_dict_def get_arr_def lift_err_def h_return_def)
    qed
  qed
qed

lemma keys_load:
  assumes "load h this = Some q"
  shows "h_keys h this = outcome_of (qs_keys q)"
proof -
  from assms obtain d al props where l1: "lookup h this = Some (Inst d al)"
    and l2: "lookup h d = Some (Dict props)"
    and l4: "load_props h props = Some (dict q)"
    by (rule load_parts)
  have "keys_loop props (for_in props) [] = keys_loop (dict q) (for_in (dict q)) []"
    using load_props_keys [OF l4] by (intro keys_loop_keys) (simp_all add: for_in_keys)
  then show ?thesis
    using l1 l2
    by (simp add: h_keys_def qs_keys_def outcome_of_def hbind_def get_inst_def get_dict_def
        lift_err_def split: sum.splits)
qed

lemma toString_load:
  assumes "load h this = Some q"
  shows "h_toString h this = Returned (toString q)"
proof -
  from assms obtain d al props where l1: "lookup h this = Some (Inst d al)"
    and l3: "lookup h al = Some (Pairs (alist q))"
    by (rule load_parts)
  show ?thesis
    using l1 l3
    by (simp add: h_toString_def toString_def hbind_def get_inst_def get_pairs_def
        h_return_def Let_def)
qed

lemma pairs_load:
  assumes "load h this = Some q"
  shows "h_pairs h this = Returned (alist q)"
proof -
  from assms obtain d al props where l1: "lookup h this = Some (Inst d al)"
    and l3: "lookup h al = Some (Pairs (alist q))"
    by (rule load_parts)
  show ?thesis
    using l1 l3 by (simp add: h_pairs_def hbind_def get_inst_def get_pairs_def)
qed

text \<open>
  Claim C9. \<open>plus\<close> and \<open>minus\<close> never change their receiver: for an object \<open>q\<close> at the
  address \<open>this\<close> of a heap, after \<open>q.plus(k, v)\<close>, after \<open>q.minus(k)\<close> and after
  \<open>q.minus(k, v)\<close> (\<open>arg2\<close> is \<open>None\<close> or \<open>Some v\<close>), whether the call returns or throws, the
  object at \<open>this\<close> is the same, and its pair sequence and the results of \<open>value\<close>,
  \<open>values\<close>, \<open>keys\<close> and \<open>toString\<close> are what they were before the call.
\<close>

theorem mutation_keeps_receiver:
  assumes "load h this = Some q"
    and "h' = fst (h_plus loc h this k v) \<or> h' = fst (h_minus loc h this k arg2)"
  shows "load h' this = Some q \<and>
         h_pairs h' this = h_pairs h this \<and>
         h_value h' this key = h_value h this key \<and>
         h_values h' this key = h_values h this key \<and>
         h_keys h' this = h_keys h this \<and>
         h_toString h' this = h_toString h this"
proof -
  have "kept (length h) h h'"
    using assms(2) kept_plus [of h loc this k v] kept_minus [of h loc this k arg2] by auto
  then have l: "load h' this = Some q"
    using assms(1) by (rule kept_load)
  show ?thesis
    using l assms(1) by (simp add: pairs_load value_load values_load keys_load toString_load)
qed

lemmas encode_eval = encode_def js_def uriUnreserved_def is_lead_surrogate_def
  is_trail_surrogate_def prepend_def pct_utf8_def utf8_def pct_def hexdigit_def gsub.simps
  re_pct20_def

lemma enc_1: "encode (Str (js ''format'')) = Inr (js ''format'')"
  by (simp add: encode_eval)
lemma enc_2: "encode (Str (js ''html'')) = Inr (js ''html'')"
  by (simp add: encode_eval)
lemma enc_3: "encode (Str (js ''=a='')) = Inr (js ''%3Da%3D'')"
  by (simp add: encode_eval)
lemma enc_4: "encode (Str [0x2120]) = Inr (js ''%E2%84%A0'')"
  by (simp add: encode_eval)

lemma h_parse_loop_Nil: "h_parse_loop [] h d al = h_return h ()"
  by (subst h_parse_loop.simps) (simp add: re_exec_def)

lemmas heap_eval = hbind_def h_return_def h_throw_def lift_err_def h_alloc_def h_write_def
  lookup_def get_arr_def get_pairs_def get_dict_def get_inst_def h_push_pair_def
  h_QueryString_def h_parse_loop_Nil h_mapDict_def plus_own_def plus_other_def set_dict_def
  set_alist_def h_plus_def minus_fkv_def h_minus_def hasOwnProperty_def put_def
  filter_arr_def Let_def

lemma for_in_other:
  "list_all (\<lambda>ka. \<not> is_array_index (fst ka)) d \<Longrightarrow> for_in d = d"
  by (simp add: for_in_def list_all_iff filter_empty_conv filter_id_conv)

lemma readme_keys: "\<not> is_array_index (js ''format'')" "\<not> is_array_index (js ''=a='')"
  by (simp_all add: is_array_index_def is_digit_def js_def)

lemma readme_blank: "h_QueryString [] [] = ([Dict [], Pairs [], Inst 0 1], Returned 2)"
  by (simp add: heap_eval)

lemma readme_plus_1:
  "h_plus [] [Dict [], Pairs [], Inst 0 1] 2 (js ''format'') (Str (js ''html'')) =
     ([Dict [], Pairs [], Inst 0 1, Dict [], Pairs [], Inst 6 8,
       Dict [(js ''format'', 7)],
       Arr [Str (js ''html'')],
       Pairs [\<lparr>key_enc = js ''format'', key_dec = js ''format'',
                val_enc = Str (js ''html''), val_dec = Str (js ''html'')\<rparr>]],
      Returned 5)"
  by (simp add: heap_eval enc_1 enc_2 for_in_other readme_keys) (simp add: js_def)

lemma readme_plus_2:
  "h_plus []
     [Dict [], Pairs [], Inst 0 1, Dict [], Pairs [], Inst 6 8,
      Dict [(js ''format'', 7)],
      Arr [Str (js ''html'')],
      Pairs [\<lparr>key_enc = js ''format'', key_dec = js ''format'',
               val_enc = Str (js ''html''), val_dec = Str (js ''html'')\<rparr>]]
     5 (js ''=a='') (Str [0x2120]) =
     ([Dict [], Pairs [], Inst 0 1, Dict [], Pairs [], Inst 6 8,
       Dict [(js ''format'', 7)],
       Arr [Str (js ''html'')],
       Pairs [\<lparr>key_enc = js ''format'', key_dec = js ''format'',
                val_enc = Str (js ''html''), val_dec = Str (js ''html'')\<rparr>],
       Dict [], Pairs [], Inst 12 14,
       Dict [(js ''format'', 7), (js ''=a='', 13)],
       Arr [Str [0x2120]],
       Pairs [\<lparr>key_enc = js ''format'', key_dec = js ''format'',
                val_enc = Str (js ''html''), val_dec = Str (js ''html'')\<rparr>,
              \<lparr>key_enc = js ''%3Da%3D'', key_dec = js ''=a='',
                val_enc = Str (js ''%E2%84%A0''), val_dec = Str [0x2120]\<rparr>]],
      Returned 11)"
  by (simp add: heap_eval enc_3 enc_4 for_in_other readme_keys) (simp add: js_def)

lemma readme_base:
  "readme_base_heap =
     [Dict [], Pairs [], Inst 0 1, Dict [], Pairs [], Inst 6 8,
      Dict [(js ''format'', 7)],
      Arr [Str (js ''html'')],
      Pairs [\<lparr>key_enc = js ''format'', key_dec = js ''format'',
               val_enc = Str (js ''html''), val_dec = Str (js ''html'')\<rparr>],
      Dict [], Pairs [], Inst 12 14,
      Dict [(js ''format'', 7), (js ''=a='', 13)],
      Arr [Str [0x2120]],
      Pairs [\<lparr>key_enc = js ''format'', key_dec = js ''format'',
               val_enc = Str (js ''html''), val_dec = Str (js ''html'')\<rparr>,
             \<lparr>key_enc = js ''%3Da%3D'', key_dec = js ''=a='',
               val_enc = Str (js ''%E2%84%A0''), val_dec = Str [0x2120]\<rparr>]]"
  unfolding readme_base_heap_def readme_blank fst_conv readme_plus_1 readme_plus_2 ..

lemma readme_minus:
  "h_minus [] readme_base_heap 11 (js ''=a='') None =
     (readme_base_heap @
        [Dict [], Pairs [], Inst 18 19,
         Dict [(js ''format'', 7)],
         Pairs [\<lparr>key_enc = js ''format'', key_dec = js ''format'',
                  val_enc = Str (js ''html''), val_dec = Str (js ''html'')\<rparr>]],
      Returned 17)"
  unfolding readme_base
  by (simp add: heap_eval for_in_def is_array_index_def is_digit_def js_def)

lemma readme_load:
  "load readme_base_heap 11 =
     Some \<lparr>dict = [(js ''format'', [Str (js ''html'')]), (js ''=a='', [Str [0x2120]])],
           alist = [\<lparr>key_enc = js ''format'', key_dec = js ''format'',
                      val_enc = Str (js ''html''), val_dec = Str (js ''html'')\<rparr>,
                    \<lparr>key_enc = js ''%3Da%3D'', key_dec = js ''=a='',
                      val_enc = Str (js ''%E2%84%A0''), val_dec = Str [0x2120]\<rparr>]\<rparr>"
  unfolding readme_base by (simp add: load_def lookup_def)

lemma readme_altered_toString:
  "h_toString (fst (h_minus [] readme_base_heap 11 (js ''=a='') None)) 17 =
     Returned (js ''?format=html'')"
  unfolding readme_minus fst_conv
  unfolding readme_base
  by (simp add: h_toString_def heap_eval js_def)

lemma readme_base_toString:
  "h_toString readme_base_heap 11 = Returned (js ''?format=html&%3Da%3D=%E2%84%A0'')"
  unfolding readme_base
  by (simp add: h_toString_def heap_eval js_def)

lemma readme_base_value:
  "h_value readme_base_heap 11 (js ''=a='') = Returned (Str [0x2120])"
  unfolding readme_base
  by (simp add: h_value_def heap_eval) (simp add: js_def)

theorem mutation_keeps_receiver_witness:
  "load readme_base_heap 11 =
     Some \<lparr>dict = [(js ''format'', [Str (js ''html'')]), (js ''=a='', [Str [0x2120]])],
           alist = [\<lparr>key_enc = js ''format'', key_dec = js ''format'',
                      val_enc = Str (js ''html''), val_dec = Str (js ''html'')\<rparr>,
                    \<lparr>key_enc = js ''%3Da%3D'', key_dec = js ''=a='',
                      val_enc = Str (js ''%E2%84%A0''), val_dec = Str [0x2120]\<rparr>]\<rparr> \<and>
   h_toString readme_base_heap 11 = Returned (js ''?format=html&%3Da%3D=%E2%84%A0'') \<and>
   snd (h_minus [] readme_base_heap 11 (js ''=a='') None) = Returned 17 \<and>
   h_toString (fst (h_minus [] readme_base_heap 11 (js ''=a='') None)) 17 =
     Returned (js ''?format=html'') \<and>
   load (fst (h_minus [] readme_base_heap 11 (js ''=a='') None)) 11 =
     load readme_base_heap 11 \<and>
   h_value (fst (h_minus [] readme_base_heap 11 (js ''=a='') None)) 11 (js ''=a='') =
     Returned (Str [0x2120])"
proof -
  note t = mutation_keeps_receiver [OF readme_load,
      of "fst (h_minus [] readme_base_heap 11 (js ''=a='') None)" "[]" "js ''=a=''" Undefined
        None "js ''=a=''"]
  have k: "load (fst (h_minus [] readme_base_heap 11 (js ''=a='') None)) 11 =
             load readme_base_heap 11"
    using t readme_load by simp
  have v: "h_value (fst (h_minus [] readme_base_heap 11 (js ''=a='') None)) 11 (js ''=a='') =
             Returned (Str [0x2120])"
    using t readme_base_value by simp
  have r: "snd (h_minus [] readme_base_heap 11 (js ''=a='') None) = Returned 17"
    unfolding readme_minus by simp
  show ?thesis
    using readme_load readme_base_toString r readme_altered_toString k v by blast
qed

end
